theory Spec2Isabelle
  imports Complex_Main "HOL-Library.Word"
begin

unbundle bit_operations_syntax

section \<open>Machine model\<close>

text \<open>
  The class \<open>CHash<T>\<close> of \<open>Inc/Hash.h\<close> is embedded for the 64-bit Windows build
  the sources are written for (\<open>strcat_s\<close>, \<open>DWORD64\<close>): pointers and \<open>size_t\<close> are
  64-bit words, \<open>unsigned int\<close> and \<open>unsigned long\<close> are 32-bit words, \<open>int\<close> is a
  32-bit signed integer, \<open>sizeof(void*) = 8\<close> and \<open>sizeof(Hash_t) = 24\<close>.

  Memory is an explicit store of pointer-sized cells, indexed by byte address read as a
  natural number. The three fields of the \<open>Hash_t\<close> at address \<open>p\<close> are the cells at
  \<open>p\<close>, \<open>p + 8\<close> and \<open>p + 16\<close>; entry \<open>i\<close> of a bucket array at \<open>t\<close> is the cell at
  \<open>t + 8 * i\<close>. Every access of the code is pointer-sized and, with an aligned
  allocator, pointer-aligned.
\<close>

type_synonym ptr = "64 word"
type_synonym memory = "nat \<Rightarrow> 64 word"

definition key_of :: "memory \<Rightarrow> ptr \<Rightarrow> ptr" where
  "key_of m p = m (unat p)"

definition value_of :: "memory \<Rightarrow> ptr \<Rightarrow> ptr" where
  "value_of m p = m (unat p + 8)"

definition Next_of :: "memory \<Rightarrow> ptr \<Rightarrow> ptr" where
  "Next_of m p = m (unat p + 16)"

definition slot :: "memory \<Rightarrow> ptr \<Rightarrow> nat \<Rightarrow> ptr" where
  "slot m t i = m (unat t + 8 * i)"

datatype error = DivideByZero | NullDereference | SignedOverflow | AssertFailed

subsection \<open>The backing allocator\<close>

text \<open>
  Modelled from the spec: \<open>CAllocator\<close> (\<open>Allocator.h\<close> is not part of the sources).
  The spec describes an arena that hands out sequential, aligned byte ranges and never
  frees one; a request that does not fit returns the null pointer. The arena's unused
  part is zero-filled, which is what the table relies on when it takes a new bucket
  array without clearing it.
\<close>

record CAllocator =
  arena_next :: nat
  arena_end :: nat

definition AllocateBytes :: "nat \<Rightarrow> nat \<Rightarrow> CAllocator \<Rightarrow> ptr \<times> CAllocator" where
  "AllocateBytes sz align al =
     (let p = ((arena_next al + align - 1) div align) * align
      in if p + sz \<le> arena_end al then (of_nat p, al\<lparr>arena_next := p + sz\<rparr>)
         else (0, al))"

subsection \<open>The table object\<close>

record CHash =
  HashAllocator :: "CAllocator option"
  HashTableSize :: int
  HashTable :: ptr
  OldHashTable :: ptr
  OldHashTableFreeRemaining :: "64 word"
  NumUsedSlots :: "32 word"
  MaxListLength :: "32 word"
  NumTotalRecords :: "32 word"
  Mem :: memory

text \<open>
  \<open>HashPointer\<close>: the mixing function, on three 64-bit words; the result is cut to
  the 32 bits of \<open>unsigned long\<close>.
\<close>

definition HashPointer :: "ptr \<Rightarrow> 32 word" where
  "HashPointer p =
     (let a = (0x9e3779b9 :: 64 word); b = (0x9e3779b9 :: 64 word); c = (0 :: 64 word);
          a = a + p;
          a = a - b; a = a - c; a = a XOR (drop_bit 13 c);
          b = b - c; b = b - a; b = b XOR (push_bit 8 a);
          c = c - a; c = c - b; c = c XOR (drop_bit 13 b);
          a = a - b; a = a - c; a = a XOR (drop_bit 12 c);
          b = b - c; b = b - a; b = b XOR (push_bit 16 a);
          c = c - a; c = c - b; c = c XOR (drop_bit 5 b);
          a = a - b; a = a - c; a = a XOR (drop_bit 3 c);
          b = b - c; b = b - a; b = b XOR (push_bit 10 a);
          c = c - a; c = c - b; c = c XOR (drop_bit 15 b)
      in ucast c)"

text \<open>
  \<open>hash % HashTableSize\<close>: the \<open>int\<close> operand is converted to \<open>unsigned long\<close>.
\<close>

definition bucket_of :: "ptr \<Rightarrow> int \<Rightarrow> nat" where
  "bucket_of p n = unat (HashPointer p) mod nat (n mod 2 ^ 32)"

definition AllocateFromOldHashTable :: "CHash \<Rightarrow> ptr \<times> CHash" where
  "AllocateFromOldHashTable s =
     (let FreePointer = OldHashTable s;
          Alignment = (8 :: 64 word);
          pAlignedFreePointer = ((FreePointer + 24 + Alignment - 1) div Alignment) * Alignment;
          AlignedOffset = pAlignedFreePointer - FreePointer;
          remaining = OldHashTableFreeRemaining s - AlignedOffset
      in if remaining \<ge> 24
         then (FreePointer, s\<lparr>OldHashTable := pAlignedFreePointer,
                                OldHashTableFreeRemaining := remaining\<rparr>)
         else (FreePointer, s\<lparr>OldHashTable := 0, OldHashTableFreeRemaining := 0\<rparr>))"

subsection \<open>Single-precision arithmetic of the resize test\<close>

text \<open>
  The resize test converts three integers to \<open>float\<close>, multiplies by \<open>0.8f\<close>,
  divides and compares with \<open>5.0f\<close>. These binary32 operations (round to nearest,
  ties to even, each operation rounded to \<open>float\<close>) are computed exactly on
  fractions: \<open>round24 N D\<close> is the fraction \<open>N / D\<close> rounded to 24 significant
  bits, for \<open>N / D \<ge> 2 ^ 23\<close> (so that the last significant bit is an integer bit).
  All values that occur lie between \<open>2 ^ - 32\<close> and \<open>2 ^ 32\<close>, far from
  overflow and from subnormal numbers; they are scaled by a power of two where needed.
\<close>

fun bit_length :: "nat \<Rightarrow> nat" where
  "bit_length n = (if n = 0 then 0 else Suc (bit_length (n div 2)))"

declare bit_length.simps [simp del]

definition round24 :: "nat \<Rightarrow> nat \<Rightarrow> nat" where
  "round24 N D =
     (let Q = N div D; R = N mod D;
          k = bit_length Q - 24;
          q = Q div 2 ^ k;
          low = (Q mod 2 ^ k) * D + R
      in if 2 * low > 2 ^ k * D \<or> (2 * low = 2 ^ k * D \<and> odd q)
         then (q + 1) * 2 ^ k else q * 2 ^ k)"

text \<open>\<open>(float)n\<close> for a non-negative integer.\<close>

definition float_of_nat :: "nat \<Rightarrow> nat" where
  "float_of_nat n = round24 n 1"

text \<open>
  \<open>(unsigned int)((float)HashTableSize * 0.8f)\<close>: the constant \<open>0.8f\<close> is
  \<open>13421773 / 2 ^ 24\<close>; the product is rounded in units of \<open>2 ^ - 24\<close> and then
  truncated.
\<close>

definition slots_limit :: "int \<Rightarrow> 32 word" where
  "slots_limit n = of_nat (round24 (float_of_nat (nat n) * 13421773) 1 div 2 ^ 24)"

text \<open>
  \<open>(float)NumTotalRecords / (float)NumUsedSlots > 5.0f\<close>: the quotient is rounded in
  units of \<open>2 ^ - 56\<close>. A positive number divided by zero is \<open>+inf\<close>, which is
  greater than 5; \<open>0 / 0\<close> is a NaN, which is not.
\<close>

definition probe_average_gt5 :: "32 word \<Rightarrow> 32 word \<Rightarrow> bool" where
  "probe_average_gt5 records used =
     (let a = float_of_nat (unat records); b = float_of_nat (unat used)
      in if b = 0 then a \<noteq> 0
         else round24 (a * 2 ^ 56) b > 5 * 2 ^ 56)"

text \<open>
  The test of lines 265 to 270 reads the length and the three counters; it is first given
  as a function of these four values.
\<close>

definition resize_test :: "int \<Rightarrow> 32 word \<Rightarrow> 32 word \<Rightarrow> 32 word \<Rightarrow> bool" where
  "resize_test n used records longest \<longleftrightarrow>
     used > slots_limit n \<or> probe_average_gt5 records used \<or> longest > 10"

definition resize_needed :: "CHash \<Rightarrow> bool" where
  "resize_needed s \<longleftrightarrow>
     resize_test (HashTableSize s) (NumUsedSlots s) (NumTotalRecords s) (MaxListLength s)"

subsection \<open>Construction\<close>

text \<open>
  The constructor initialises the allocator handle, the length, the three counters and
  the bucket array; \<open>OldHashTable\<close> and \<open>OldHashTableFreeRemaining\<close> keep whatever
  the object's storage held. The first argument is that storage together with the
  memory.
\<close>

definition CHash_ctor :: "CHash \<Rightarrow> CAllocator option \<Rightarrow> int \<Rightarrow> CHash" where
  "CHash_ctor storage InHashAllocator InHashTableSize =
     (let s = storage\<lparr>HashAllocator := InHashAllocator, HashTableSize := InHashTableSize,
                         NumUsedSlots := 0, MaxListLength := 0, NumTotalRecords := 0,
                         HashTable := 0\<rparr>
      in case InHashAllocator of
           None \<Rightarrow> s
         | Some al \<Rightarrow>
             if InHashTableSize \<noteq> 0
             then (let (t, al') = AllocateBytes (nat ((InHashTableSize * 8) mod 2 ^ 64)) 8 al
                   in s\<lparr>HashTable := t, HashAllocator := Some al'\<rparr>)
             else s)"

subsection \<open>Growing the table\<close>

text \<open>The inner loop of the migration: walk the new bucket's chain to its end.\<close>

partial_function (option) walk_to_tail ::
  "memory \<Rightarrow> ptr \<Rightarrow> ptr \<Rightarrow> 32 word \<Rightarrow> 32 word \<Rightarrow> (ptr \<times> 32 word) option" where
  "walk_to_tail m pHashRecord pPrevHashRecord LinkedListLength MaxLen =
     (if pHashRecord = 0 then Some (pPrevHashRecord, MaxLen)
      else let LinkedListLength = LinkedListLength + 1;
               MaxLen = (if LinkedListLength > MaxLen then LinkedListLength else MaxLen)
           in walk_to_tail m (Next_of m pHashRecord) pHashRecord LinkedListLength MaxLen)"

text \<open>The loop over one old chain, from node \<open>p\<close> on.\<close>

partial_function (option) migrate_chain :: "CHash \<Rightarrow> ptr \<Rightarrow> (error + CHash) option" where
  "migrate_chain s p =
     (if p = 0 then Some (Inr s)
      else if HashTableSize s mod 2 ^ 32 = 0 then Some (Inl DivideByZero)
      else if HashTable s = 0 then Some (Inl NullDereference)
      else
        (let new_rehash = bucket_of (key_of (Mem s) p) (HashTableSize s)
         in case walk_to_tail (Mem s) (slot (Mem s) (HashTable s) new_rehash) 0 0
                   (MaxListLength s) of
              None \<Rightarrow> None
            | Some (pPrevHashRecord, MaxLen) \<Rightarrow>
                (let pHashRecord = p;
                     p = Next_of (Mem s) p;
                     m = (Mem s)(unat pHashRecord + 16 := 0);
                     s = s\<lparr>MaxListLength := MaxLen\<rparr>;
                     s = (if pPrevHashRecord = 0
                          then s\<lparr>Mem := m(unat (HashTable s) + 8 * new_rehash := pHashRecord),
                                 NumUsedSlots := NumUsedSlots s + 1\<rparr>
                          else s\<lparr>Mem := m(unat pPrevHashRecord + 16 := pHashRecord)\<rparr>);
                     s = s\<lparr>NumTotalRecords := NumTotalRecords s + 1\<rparr>
                 in migrate_chain s p)))"

text \<open>The loop over the old buckets \<open>i, ..., OldHashTableSize - 1\<close>.\<close>

function migrate_buckets :: "nat \<Rightarrow> nat \<Rightarrow> CHash \<Rightarrow> (error + CHash) option" where
  "migrate_buckets i OldHashTableSize s =
     (if i < OldHashTableSize
      then if OldHashTable s = 0 then Some (Inl NullDereference)
           else (case migrate_chain s (slot (Mem s) (OldHashTable s) i) of
                   None \<Rightarrow> None
                 | Some (Inl e) \<Rightarrow> Some (Inl e)
                 | Some (Inr s') \<Rightarrow> migrate_buckets (Suc i) OldHashTableSize s')
      else Some (Inr s))"
  by pat_completeness auto
termination
  by (relation "measure (\<lambda>(i, n, s). n - i)") auto

declare migrate_buckets.simps [simp del]

definition IncreaseHashTableSize :: "CHash \<Rightarrow> (error + CHash) option" where
  "IncreaseHashTableSize s =
     (let OldHashTableSize = HashTableSize s;
          s = s\<lparr>OldHashTableFreeRemaining := of_int (OldHashTableSize * 8),
                 OldHashTable := HashTable s\<rparr>
      in if HashTableSize s * 2 < - (2 ^ 31) \<or> 2 ^ 31 \<le> HashTableSize s * 2
         then Some (Inl SignedOverflow)
         else
           (case HashAllocator s of
              None \<Rightarrow> Some (Inl NullDereference)
            | Some al \<Rightarrow>
                (let s = s\<lparr>HashTableSize := HashTableSize s * 2\<rparr>;
                     (t, al') = AllocateBytes (nat ((HashTableSize s * 8) mod 2 ^ 64)) 8 al;
                     s = s\<lparr>HashTable := t, HashAllocator := Some al',
                            NumUsedSlots := 0, MaxListLength := 0, NumTotalRecords := 0\<rparr>
                 in migrate_buckets 0 (nat OldHashTableSize) s)))"

subsection \<open>Lookup and insertion\<close>

text \<open>
  The first loop of \<open>LookupPointer\<close>. The result is the record found (null if the
  chain ends first), the last record visited before it and the updated
  \<open>MaxListLength\<close>.
\<close>

partial_function (option) walk_chain ::
  "memory \<Rightarrow> ptr \<Rightarrow> ptr \<Rightarrow> ptr \<Rightarrow> 32 word \<Rightarrow> 32 word \<Rightarrow> (ptr \<times> ptr \<times> 32 word) option" where
  "walk_chain m InPointer pHashRecord pPrevHashRecord LinkedListLength MaxLen =
     (if pHashRecord = 0 then Some (0, pPrevHashRecord, MaxLen)
      else let LinkedListLength = LinkedListLength + 1;
               MaxLen = (if LinkedListLength > MaxLen then LinkedListLength else MaxLen)
           in if key_of m pHashRecord = InPointer then Some (pHashRecord, pPrevHashRecord, MaxLen)
              else walk_chain m InPointer (Next_of m pHashRecord) pHashRecord
                     LinkedListLength MaxLen)"

text \<open>The loop that finds the key again after the table has grown.\<close>

partial_function (option) find_chain :: "memory \<Rightarrow> ptr \<Rightarrow> ptr \<Rightarrow> ptr option" where
  "find_chain m InPointer pHashRecord =
     (if pHashRecord = 0 then Some 0
      else if key_of m pHashRecord = InPointer then Some pHashRecord
      else find_chain m InPointer (Next_of m pHashRecord))"

text \<open>The choice of the storage of a new record.\<close>

definition allocate_record :: "CHash \<Rightarrow> error + ptr \<times> CHash" where
  "allocate_record s =
     (if OldHashTable s \<noteq> 0 then Inr (AllocateFromOldHashTable s)
      else (case HashAllocator s of
              None \<Rightarrow> Inl NullDereference
            | Some al \<Rightarrow>
                (let (p, al') = AllocateBytes 24 8 al
                 in Inr (p, s\<lparr>HashAllocator := Some al'\<rparr>))))"

text \<open>
  The block of \<open>LookupPointer\<close> that adds a record for a key the walk did not
  find: storage, the three fields, the link from the bucket or from the last record of
  the chain, and the counters.
\<close>

definition add_record :: "ptr \<Rightarrow> nat \<Rightarrow> ptr \<Rightarrow> CHash \<Rightarrow> error + ptr \<times> CHash" where
  "add_record InPointer hash pPrevHashRecord s =
     (case allocate_record s of
        Inl e \<Rightarrow> Inl e
      | Inr (pNewHashRec, s) \<Rightarrow>
          if pNewHashRec = 0 then Inl NullDereference
          else
            (let m = (Mem s)(unat pNewHashRec := InPointer,
                             unat pNewHashRec + 8 := 0,
                             unat pNewHashRec + 16 := 0);
                 s = (if pPrevHashRecord = 0
                      then s\<lparr>Mem := m(unat (HashTable s) + 8 * hash := pNewHashRec),
                             NumUsedSlots := NumUsedSlots s + 1\<rparr>
                      else s\<lparr>Mem := m(unat pPrevHashRecord + 16 := pNewHashRec)\<rparr>);
                 s = s\<lparr>NumTotalRecords := NumTotalRecords s + 1\<rparr>
             in Inr (pNewHashRec, s)))"

text \<open>
  The block that finds the key again after the table has grown. Its last statement,
  \<open>assert(false)\<close>, is the error \<open>AssertFailed\<close>.
\<close>

definition find_again :: "ptr \<Rightarrow> CHash \<Rightarrow> (error + ptr \<times> CHash) option" where
  "find_again InPointer s =
     (if HashTableSize s mod 2 ^ 32 = 0 then Some (Inl DivideByZero)
      else if HashTable s = 0 then Some (Inl NullDereference)
      else
        (let rehash = bucket_of InPointer (HashTableSize s)
         in case find_chain (Mem s) InPointer (slot (Mem s) (HashTable s) rehash) of
              None \<Rightarrow> None
            | Some pHashRecord \<Rightarrow>
                if pHashRecord \<noteq> 0 then Some (Inr (pHashRecord + 8, s))
                else Some (Inl AssertFailed)))"

text \<open>
  The first part of \<open>LookupPointer\<close>, up to the resize test: the walk along the
  chain of the key's bucket, which returns early when it finds the key, and otherwise
  the new record. The result says whether a record was added, and gives the record and
  the state.
\<close>

definition find_or_add :: "ptr \<Rightarrow> CHash \<Rightarrow> (error + bool \<times> ptr \<times> CHash) option" where
  "find_or_add InPointer s =
     (if HashTableSize s mod 2 ^ 32 = 0 then Some (Inl DivideByZero)
      else if HashTable s = 0 then Some (Inl NullDereference)
      else
        (let hash = bucket_of InPointer (HashTableSize s)
         in case walk_chain (Mem s) InPointer (slot (Mem s) (HashTable s) hash) 0 0
                   (MaxListLength s) of
              None \<Rightarrow> None
            | Some (pHashRecord, pPrevHashRecord, MaxLen) \<Rightarrow>
                (let s = s\<lparr>MaxListLength := MaxLen\<rparr>
                 in if pHashRecord \<noteq> 0 then Some (Inr (False, pHashRecord, s))
                    else
                      (case add_record InPointer hash pPrevHashRecord s of
                         Inl e \<Rightarrow> Some (Inl e)
                       | Inr (pNewHashRec, s) \<Rightarrow> Some (Inr (True, pNewHashRec, s))))))"

text \<open>
  \<open>LookupPointer\<close> returns the address of the \<open>value\<close> field of the record, which
  is the record's address plus 8. The resize test is made only after a record has been
  added.
\<close>

definition LookupPointer :: "ptr \<Rightarrow> CHash \<Rightarrow> (error + ptr \<times> CHash) option" where
  "LookupPointer InPointer s =
     (case find_or_add InPointer s of
        None \<Rightarrow> None
      | Some (Inl e) \<Rightarrow> Some (Inl e)
      | Some (Inr (added, pHashRecord, s)) \<Rightarrow>
          if added \<and> resize_needed s
          then (case IncreaseHashTableSize s of
                  None \<Rightarrow> None
                | Some (Inl e) \<Rightarrow> Some (Inl e)
                | Some (Inr s) \<Rightarrow> find_again InPointer s)
          else Some (Inr (pHashRecord + 8, s)))"

text \<open>
  What the caller does with the returned slot: it stores the pointer to the value
  record it has built.
\<close>

definition store_value :: "ptr \<Rightarrow> ptr \<Rightarrow> CHash \<Rightarrow> CHash" where
  "store_value slot_ref v s = s\<lparr>Mem := (Mem s)(unat slot_ref := v)\<rparr>"

text \<open>
  The record of a key, found as \<open>LookupPointer\<close> finds it but without any effect on
  the state; null if the key has none.
\<close>

definition find_record :: "CHash \<Rightarrow> ptr \<Rightarrow> ptr option" where
  "find_record s k =
     find_chain (Mem s) k (slot (Mem s) (HashTable s) (bucket_of k (HashTableSize s)))"


section \<open>Example states\<close>

text \<open>
  An arena of one megabyte whose first free byte is at address 4096, and the storage of
  a table object in zero-filled memory.
\<close>

definition arena0 :: CAllocator where
  "arena0 = \<lparr>arena_next = 4096, arena_end = 1048576\<rparr>"

definition storage0 :: CHash where
  "storage0 = \<lparr>HashAllocator = None, HashTableSize = 0, HashTable = 0, OldHashTable = 0,
     OldHashTableFreeRemaining = 0, NumUsedSlots = 0, MaxListLength = 0,
     NumTotalRecords = 0, Mem = (\<lambda>_. 0)\<rparr>"

text \<open>
  The cursor of a table whose 3-bucket array at 4096 has just been superseded: 24 bytes,
  the room of exactly one record.
\<close>

definition last_room :: CHash where
  "last_room = storage0\<lparr>HashAllocator := Some \<lparr>arena_next = 4240, arena_end = 1048576\<rparr>,
     HashTableSize := 6, HashTable := 4192, OldHashTable := 4096,
     OldHashTableFreeRemaining := 24\<rparr>"

section \<open>Abstract view of the table\<close>

subsection \<open>Chains of records\<close>

fun chain :: "memory \<Rightarrow> ptr \<Rightarrow> ptr list \<Rightarrow> bool" where
  "chain m p [] \<longleftrightarrow> p = 0"
| "chain m p (a # as) \<longleftrightarrow> p = a \<and> a \<noteq> 0 \<and> chain m (Next_of m a) as"

text \<open>The statistic after a walk over the records \<open>as\<close>.\<close>

fun walk_max :: "'a list \<Rightarrow> 32 word \<Rightarrow> 32 word \<Rightarrow> 32 word" where
  "walk_max [] l mx = mx"
| "walk_max (a # as) l mx = walk_max as (l + 1) (if l + 1 > mx then l + 1 else mx)"

subsection \<open>Regrouping records by bucket\<close>

text \<open>The buckets after linking the records \<open>as\<close>, in order, each at the end of the
  chain of the bucket \<open>h\<close> gives it.\<close>

fun rehash_into :: "('a \<Rightarrow> nat) \<Rightarrow> 'a list \<Rightarrow> 'a list list \<Rightarrow> 'a list list" where
  "rehash_into h [] nb = nb"
| "rehash_into h (a # as) nb = rehash_into h as (nb[h a := nb ! h a @ [a]])"

fun rehash_max :: "('a \<Rightarrow> nat) \<Rightarrow> 'a list \<Rightarrow> 'a list list \<Rightarrow> 32 word \<Rightarrow> 32 word" where
  "rehash_max h [] nb mx = mx"
| "rehash_max h (a # as) nb mx =
     rehash_max h as (nb[h a := nb ! h a @ [a]]) (walk_max (nb ! h a) 0 mx)"

definition used_slots :: "'a list list \<Rightarrow> nat" where
  "used_slots bs = length (filter (\<lambda>b. b \<noteq> []) bs)"

subsection \<open>Well-formed tables\<close>

definition apart :: "ptr \<Rightarrow> ptr \<Rightarrow> bool" where
  "apart a b \<longleftrightarrow> unat a + 24 \<le> unat b \<or> unat b + 24 \<le> unat a"

definition outside :: "nat \<Rightarrow> nat \<Rightarrow> ptr \<Rightarrow> bool" where
  "outside lo len a \<longleftrightarrow> unat a + 24 \<le> lo \<or> lo + len \<le> unat a"

definition records_apart :: "ptr set \<Rightarrow> bool" where
  "records_apart A \<longleftrightarrow> (\<forall>a \<in> A. \<forall>b \<in> A. a \<noteq> b \<longrightarrow> apart a b)"

definition chains_ok :: "memory \<Rightarrow> ptr \<Rightarrow> ptr list list \<Rightarrow> bool" where
  "chains_ok m t bs \<longleftrightarrow> (\<forall>i < length bs. chain m (slot m t i) (bs ! i))"

definition placed :: "memory \<Rightarrow> int \<Rightarrow> ptr list list \<Rightarrow> bool" where
  "placed m n bs \<longleftrightarrow> (\<forall>i < length bs. \<forall>a \<in> set (bs ! i). bucket_of (key_of m a) n = i)"

definition arena_ok :: "CHash \<Rightarrow> ptr list list \<Rightarrow> bool" where
  "arena_ok s bs \<longleftrightarrow>
     (case HashAllocator s of
        None \<Rightarrow> False
      | Some al \<Rightarrow>
          0 < arena_next al \<and> arena_next al \<le> arena_end al \<and> arena_end al < 2 ^ 64 \<and>
          unat (HashTable s) + 8 * length bs \<le> arena_next al \<and>
          (\<forall>a \<in> set (concat bs). unat a + 24 \<le> arena_next al) \<and>
          (OldHashTable s \<noteq> 0 \<longrightarrow>
             unat (OldHashTable s) + unat (OldHashTableFreeRemaining s) \<le> arena_next al) \<and>
          (\<forall>x \<ge> arena_next al. Mem s x = 0))"

definition cursor_ok :: "CHash \<Rightarrow> ptr list list \<Rightarrow> bool" where
  "cursor_ok s bs \<longleftrightarrow>
     (OldHashTable s \<noteq> 0 \<longrightarrow>
        8 dvd unat (OldHashTable s) \<and> 24 \<le> unat (OldHashTableFreeRemaining s) \<and>
        (unat (OldHashTable s) + unat (OldHashTableFreeRemaining s) \<le> unat (HashTable s) \<or>
         unat (HashTable s) + 8 * length bs \<le> unat (OldHashTable s)) \<and>
        (\<forall>a \<in> set (concat bs).
           outside (unat (OldHashTable s)) (unat (OldHashTableFreeRemaining s)) a))"

text \<open>
  A table is well formed for the list \<open>bs\<close> of its buckets, each the list of the records
  on its chain. The length is at least 3: the array that a resize retires then has at
  least 24 bytes, the room of a record, which the cursor needs. A table built with one or
  two buckets is not well formed; the section on such tables shows what the code does
  there.
  The constructor does not set the two cursor fields; a well-formed table has them
  cleared or describing a retired array.
\<close>

definition table_inv :: "CHash \<Rightarrow> ptr list list \<Rightarrow> bool" where
  "table_inv s bs \<longleftrightarrow>
     3 \<le> HashTableSize s \<and> HashTableSize s < 2 ^ 31 \<and>
     length bs = nat (HashTableSize s) \<and> HashTable s \<noteq> 0 \<and>
     chains_ok (Mem s) (HashTable s) bs \<and>
     distinct (concat bs) \<and> records_apart (set (concat bs)) \<and>
     (\<forall>a \<in> set (concat bs). outside (unat (HashTable s)) (8 * length bs) a) \<and>
     placed (Mem s) (HashTableSize s) bs \<and>
     distinct (map (key_of (Mem s)) (concat bs)) \<and>
     NumTotalRecords s = of_nat (length (concat bs)) \<and>
     NumUsedSlots s = of_nat (used_slots bs) \<and>
     arena_ok s bs \<and> cursor_ok s bs \<and> 8 dvd unat (HashTable s)"

definition room :: "CHash \<Rightarrow> nat" where
  "room s = (case HashAllocator s of None \<Rightarrow> 0 | Some al \<Rightarrow> arena_end al - arena_next al)"

definition arena_post :: "CHash \<Rightarrow> ptr list list \<Rightarrow> ptr \<Rightarrow> CHash \<Rightarrow> bool" where
  "arena_post s bs p sa \<longleftrightarrow>
     (case HashAllocator sa of
        None \<Rightarrow> False
      | Some al \<Rightarrow>
          0 < arena_next al \<and> arena_next al \<le> arena_end al \<and> arena_end al < 2 ^ 64 \<and>
          unat (HashTable s) + 8 * length bs \<le> arena_next al \<and>
          (\<forall>a \<in> set (concat bs). unat a + 24 \<le> arena_next al) \<and>
          unat p + 24 \<le> arena_next al \<and>
          (OldHashTable sa \<noteq> 0 \<longrightarrow>
             unat (OldHashTable sa) + unat (OldHashTableFreeRemaining sa) \<le> arena_next al) \<and>
          (\<forall>x \<ge> arena_next al. Mem s x = 0))"

definition alloc_post :: "CHash \<Rightarrow> ptr list list \<Rightarrow> ptr \<Rightarrow> CHash \<Rightarrow> bool" where
  "alloc_post s bs p sa \<longleftrightarrow>
     Mem sa = Mem s \<and> HashTableSize sa = HashTableSize s \<and> HashTable sa = HashTable s \<and>
     NumUsedSlots sa = NumUsedSlots s \<and> MaxListLength sa = MaxListLength s \<and>
     NumTotalRecords sa = NumTotalRecords s \<and>
     p \<noteq> 0 \<and> (\<forall>a \<in> set (concat bs). apart a p) \<and>
     outside (unat (HashTable s)) (8 * length bs) p \<and>
     arena_post s bs p sa \<and>
     (OldHashTable sa \<noteq> 0 \<longrightarrow>
        8 dvd unat (OldHashTable sa) \<and> 24 \<le> unat (OldHashTableFreeRemaining sa) \<and>
        (unat (OldHashTable sa) + unat (OldHashTableFreeRemaining sa) \<le> unat (HashTable s) \<or>
         unat (HashTable s) + 8 * length bs \<le> unat (OldHashTable sa)) \<and>
        (\<forall>a \<in> set (concat bs).
           outside (unat (OldHashTable sa)) (unat (OldHashTableFreeRemaining sa)) a) \<and>
        outside (unat (OldHashTable sa)) (unat (OldHashTableFreeRemaining sa)) p) \<and>
     room s \<le> room sa + 31"

subsection \<open>Migration in progress\<close>

definition touch :: "ptr \<Rightarrow> nat \<Rightarrow> ptr set \<Rightarrow> nat set" where
  "touch t N B = {x. \<exists>j < N. x = unat t + 8 * j} \<union> {x. \<exists>b \<in> B. x = unat b + 16}"

definition mig_static :: "ptr set \<Rightarrow> ptr \<Rightarrow> nat \<Rightarrow> bool" where
  "mig_static A t N \<longleftrightarrow>
     t \<noteq> 0 \<and> 0 < N \<and> N < 2 ^ 31 \<and> records_apart A \<and>
     (\<forall>a \<in> A. outside (unat t) (8 * N) a) \<and> 0 \<notin> A"

definition mig_inv :: "ptr set \<Rightarrow> (ptr \<Rightarrow> ptr) \<Rightarrow> ptr \<Rightarrow> nat \<Rightarrow> CHash \<Rightarrow> ptr list list \<Rightarrow> bool" where
  "mig_inv A kf t N s nb \<longleftrightarrow>
     HashTable s = t \<and> HashTableSize s = int N \<and> length nb = N \<and>
     chains_ok (Mem s) t nb \<and> distinct (concat nb) \<and> set (concat nb) \<subseteq> A \<and>
     (\<forall>a \<in> A. key_of (Mem s) a = kf a) \<and>
     NumTotalRecords s = of_nat (length (concat nb)) \<and>
     NumUsedSlots s = of_nat (used_slots nb)"

definition same_rest :: "CHash \<Rightarrow> CHash \<Rightarrow> bool" where
  "same_rest s s' \<longleftrightarrow>
     HashAllocator s' = HashAllocator s \<and> OldHashTable s' = OldHashTable s \<and>
     OldHashTableFreeRemaining s' = OldHashTableFreeRemaining s"

subsection \<open>The state at the start of a migration\<close>

definition grown :: "CHash \<Rightarrow> ptr \<Rightarrow> CAllocator \<Rightarrow> CHash" where
  "grown s t al' = s\<lparr>OldHashTableFreeRemaining := of_int (HashTableSize s * 8),
     OldHashTable := HashTable s, HashTableSize := HashTableSize s * 2, HashTable := t,
     HashAllocator := Some al', NumUsedSlots := 0, MaxListLength := 0, NumTotalRecords := 0\<rparr>"

subsection \<open>The buckets after a resize\<close>

definition regrouped :: "CHash \<Rightarrow> ptr list list \<Rightarrow> ptr list list" where
  "regrouped s bs =
     rehash_into (\<lambda>a. bucket_of (key_of (Mem s) a) (HashTableSize s * 2)) (concat bs)
       (replicate (2 * length bs) [])"

definition regrouped_max :: "CHash \<Rightarrow> ptr list list \<Rightarrow> 32 word" where
  "regrouped_max s bs =
     rehash_max (\<lambda>a. bucket_of (key_of (Mem s) a) (HashTableSize s * 2)) (concat bs)
       (replicate (2 * length bs) []) 0"

subsection \<open>Records on a chain, and the operations on a table\<close>

inductive on_chain :: "memory \<Rightarrow> ptr \<Rightarrow> ptr \<Rightarrow> bool" for m :: memory where
  here: "p \<noteq> 0 \<Longrightarrow> on_chain m p p"
| further: "p \<noteq> 0 \<Longrightarrow> on_chain m (Next_of m p) a \<Longrightarrow> on_chain m p a"

definition in_table :: "CHash \<Rightarrow> ptr \<Rightarrow> bool" where
  "in_table s a \<longleftrightarrow>
     (\<exists>i < nat (HashTableSize s). on_chain (Mem s) (slot (Mem s) (HashTable s) i) a)"

inductive step :: "CHash \<Rightarrow> CHash \<Rightarrow> bool" where
  added: "find_or_add k s = Some (Inr (b, p, s')) \<Longrightarrow> step s s'"
| lookup: "LookupPointer k s = Some (Inr (r, s')) \<Longrightarrow> step s s'"
| store: "find_record s k = Some a \<Longrightarrow> a \<noteq> 0 \<Longrightarrow> step s (store_value (a + 8) v s)"
| grow: "IncreaseHashTableSize s = Some (Inr s') \<Longrightarrow> HashTable s' \<noteq> 0 \<Longrightarrow> step s s'"

subsection \<open>Repeated resizes\<close>

definition grow_step :: "CHash \<Rightarrow> CHash \<Rightarrow> bool" where
  "grow_step s s' \<longleftrightarrow> IncreaseHashTableSize s = Some (Inr s')"

subsection \<open>The resize conditions in the words of the specification\<close>

definition resize_condition :: "int \<Rightarrow> 32 word \<Rightarrow> 32 word \<Rightarrow> 32 word \<Rightarrow> bool" where
  "resize_condition n used records longest \<longleftrightarrow>
     real (unat used) > 8 / 10 * real_of_int n \<or>
     real (unat records) / real (unat used) > 5 \<or>
     unat longest > 10"

subsection \<open>Tables built with one or two buckets\<close>

text \<open>A sequence of calls of \<open>LookupPointer\<close>; the result lists the references returned.\<close>

fun lookups :: "ptr list \<Rightarrow> CHash \<Rightarrow> (error + ptr list \<times> CHash) option" where
  "lookups [] s = Some (Inr ([], s))"
| "lookups (k # ks) s =
     (case LookupPointer k s of
        None \<Rightarrow> None
      | Some (Inl e) \<Rightarrow> Some (Inl e)
      | Some (Inr (slot_ref, s')) \<Rightarrow>
          (case lookups ks s' of
             None \<Rightarrow> None
           | Some (Inl e) \<Rightarrow> Some (Inl e)
           | Some (Inr (refs, s'')) \<Rightarrow> Some (Inr (slot_ref # refs, s''))))"

text \<open>
  The use of the table that the note at lines 245 to 247 prescribes: the caller looks the
  key up and stores the value through the reference it gets, here for a list of keys
  with their values, in order.
\<close>

fun put_all :: "(ptr \<times> 64 word) list \<Rightarrow> CHash \<Rightarrow> (error + CHash) option" where
  "put_all [] s = Some (Inr s)"
| "put_all ((k, v) # kvs) s =
     (case LookupPointer k s of
        None \<Rightarrow> None
      | Some (Inl e) \<Rightarrow> Some (Inl e)
      | Some (Inr (slot_ref, s')) \<Rightarrow> put_all kvs (store_value slot_ref v s'))"

definition tiny1 :: CHash where
  "tiny1 = CHash_ctor storage0 (Some arena0) 1"

definition tiny2 :: CHash where
  "tiny2 = CHash_ctor storage0 (Some arena0) 2"

text \<open>The one-bucket table after the lookup of the key 1048576.\<close>

definition tiny1_one :: CHash where
  "tiny1_one =
   \<lparr>HashAllocator = Some \<lparr>arena_next = 4144, arena_end = 1048576\<rparr>,
     HashTableSize = 2, HashTable = 4128, OldHashTable = 4096,
     OldHashTableFreeRemaining = 8, NumUsedSlots = 1, MaxListLength = 0,
     NumTotalRecords = 1,
     Mem = (\<lambda>_. 0)(4096 := 4104, 4104 := 1048576, 4128 := 4104)\<rparr>"

text \<open>The one-bucket table after the keys 1048576 and 1048584 have been looked up and given the
  values 43690 and 48059.\<close>

definition tiny1_two :: CHash where
  "tiny1_two =
   \<lparr>HashAllocator = Some \<lparr>arena_next = 4176, arena_end = 1048576\<rparr>,
     HashTableSize = 4, HashTable = 4144, OldHashTable = 4128,
     OldHashTableFreeRemaining = 16, NumUsedSlots = 1, MaxListLength = 1,
     NumTotalRecords = 2,
     Mem = (\<lambda>_. 0)(4096 := 1048584, 4104 := 48059, 4120 := 4096, 4128 := 4104,
            4136 := 4096, 4152 := 4104)\<rparr>"

text \<open>The same table after a further lookup of the key 1048576.\<close>

definition tiny1_three :: CHash where
  "tiny1_three =
   \<lparr>HashAllocator = Some \<lparr>arena_next = 4176, arena_end = 1048576\<rparr>,
     HashTableSize = 4, HashTable = 4144, OldHashTable = 4152,
     OldHashTableFreeRemaining = 18446744073709551608, NumUsedSlots = 2, MaxListLength = 1,
     NumTotalRecords = 3,
     Mem = (\<lambda>_. 0)(4096 := 1048584, 4104 := 48059, 4120 := 4096, 4128 := 1048576,
            4144 := 4128, 4152 := 4104)\<rparr>"

text \<open>The one-bucket table after the lookups of the keys 1048576, 1048584 and 1048576 again.\<close>

definition tiny1_again :: CHash where
  "tiny1_again =
   \<lparr>HashAllocator = Some \<lparr>arena_next = 4176, arena_end = 1048576\<rparr>,
     HashTableSize = 4, HashTable = 4144, OldHashTable = 4152,
     OldHashTableFreeRemaining = 18446744073709551608, NumUsedSlots = 2, MaxListLength = 1,
     NumTotalRecords = 3,
     Mem = (\<lambda>_. 0)(4096 := 1048584, 4120 := 4096, 4128 := 1048576, 4144 := 4128,
            4152 := 4104)\<rparr>"

text \<open>The one-bucket table after the lookups of the keys 1048888 and 1048976.\<close>

definition tiny1_misplaced :: CHash where
  "tiny1_misplaced =
   \<lparr>HashAllocator = Some \<lparr>arena_next = 4144, arena_end = 1048576\<rparr>,
     HashTableSize = 2, HashTable = 4128, OldHashTable = 4120,
     OldHashTableFreeRemaining = 18446744073709551600, NumUsedSlots = 1, MaxListLength = 1,
     NumTotalRecords = 2,
     Mem = (\<lambda>_. 0)(4096 := 1048976, 4120 := 4096, 4128 := 4104)\<rparr>"

text \<open>The two-bucket table after the lookups of five keys.\<close>

definition tiny2_five :: CHash where
  "tiny2_five =
   \<lparr>HashAllocator = Some \<lparr>arena_next = 4192, arena_end = 1048576\<rparr>,
     HashTableSize = 4, HashTable = 4160, OldHashTable = 4168,
     OldHashTableFreeRemaining = 18446744073709551560, NumUsedSlots = 3, MaxListLength = 1,
     NumTotalRecords = 5,
     Mem = (\<lambda>_. 0)(4096 := 1048752, 4112 := 4120, 4120 := 1048920, 4144 := 1048608,
            4152 := 4144, 4176 := 4096, 4184 := 4112)\<rparr>"

text \<open>The one-bucket table after the lookups of the keys 12520, 20904, 21832 and 34744.\<close>

definition tiny1_unused :: CHash where
  "tiny1_unused =
   \<lparr>HashAllocator = Some \<lparr>arena_next = 4176, arena_end = 1048576\<rparr>,
     HashTableSize = 4, HashTable = 4144, OldHashTable = 4128,
     OldHashTableFreeRemaining = 16, NumUsedSlots = 0, MaxListLength = 1,
     NumTotalRecords = 1,
     Mem = (\<lambda>_. 0)(4096 := 20904, 4112 := 4120, 4120 := 21832, 4128 := 4144,
            4144 := 34744, 34760 := 4144)\<rparr>"

subsection \<open>Snapshot export\<close>

text \<open>
  \<open>CopyHashToArray\<close>, lines 75 to 134. The value type \<open>T\<close> is a parameter of the class;
  its two methods that the function calls are parameters here:
  \<open>GetNumRecordsToCopy\<close> maps the memory and the address of a value to its count, and
  \<open>GetArrayCopy\<close> maps the copy allocator, the flag, the memory and the address of a
  value to the address of the copy, the allocator and the memory after the call.
  Calling either through a null \<open>value\<close> is the error \<open>NullDereference\<close>, and so is the
  store into the array when its allocation has failed.

  The first loop, over one chain, adds up the counts.
\<close>

partial_function (option) count_chain ::
  "(memory \<Rightarrow> ptr \<Rightarrow> 32 word) \<Rightarrow> memory \<Rightarrow> ptr \<Rightarrow> 32 word \<Rightarrow> (error + 32 word) option" where
  "count_chain GetNumRecordsToCopy m p NumTotalRecordsToCopy =
     (if p = 0 then Some (Inr NumTotalRecordsToCopy)
      else if value_of m p = 0 then Some (Inl NullDereference)
      else count_chain GetNumRecordsToCopy m (Next_of m p)
             (NumTotalRecordsToCopy + GetNumRecordsToCopy m (value_of m p)))"

text \<open>The first loop over the buckets \<open>i, ..., HashTableSize - 1\<close>.\<close>

function count_buckets ::
  "(memory \<Rightarrow> ptr \<Rightarrow> 32 word) \<Rightarrow> memory \<Rightarrow> ptr \<Rightarrow> nat \<Rightarrow> nat \<Rightarrow> 32 word \<Rightarrow>
   (error + 32 word) option" where
  "count_buckets GetNumRecordsToCopy m t n i NumTotalRecordsToCopy =
     (if i < n
      then (case count_chain GetNumRecordsToCopy m (slot m t i) NumTotalRecordsToCopy of
              None \<Rightarrow> None
            | Some (Inl e) \<Rightarrow> Some (Inl e)
            | Some (Inr c) \<Rightarrow> count_buckets GetNumRecordsToCopy m t n (Suc i) c)
      else Some (Inr NumTotalRecordsToCopy))"
  by pat_completeness auto

termination
  by (relation "measure (\<lambda>(G, m, t, n, i, c). n - i)") auto

text \<open>
  The second loop, over one chain. Its state is \<open>ArrayIndex\<close>, an \<open>int\<close>, the copy
  allocator and the memory; \<open>p->Next\<close> is read after the store into the array.
\<close>

partial_function (option) copy_chain ::
  "(memory \<Rightarrow> ptr \<Rightarrow> 32 word) \<Rightarrow>
   (CAllocator \<Rightarrow> bool \<Rightarrow> memory \<Rightarrow> ptr \<Rightarrow> ptr \<times> CAllocator \<times> memory) \<Rightarrow>
   bool \<Rightarrow> ptr \<Rightarrow> ptr \<Rightarrow> int \<times> CAllocator \<times> memory \<Rightarrow>
   (error + int \<times> CAllocator \<times> memory) option" where
  "copy_chain GetNumRecordsToCopy GetArrayCopy bCopyMemberHashTables pArrayOfPointers p st =
     (if p = 0 then Some (Inr st)
      else (case st of (ArrayIndex, al, m) \<Rightarrow>
        if value_of m p = 0 then Some (Inl NullDereference)
        else if GetNumRecordsToCopy m (value_of m p) \<noteq> 0
        then (case (if bCopyMemberHashTables
                    then GetArrayCopy al bCopyMemberHashTables m (value_of m p)
                    else (value_of m p, al, m)) of
                (ptr, al', m') \<Rightarrow>
                  if pArrayOfPointers = 0 then Some (Inl NullDereference)
                  else if ArrayIndex + 1 \<ge> 2 ^ 31 then Some (Inl SignedOverflow)
                  else copy_chain GetNumRecordsToCopy GetArrayCopy bCopyMemberHashTables
                         pArrayOfPointers
                         (Next_of (m'(unat (pArrayOfPointers + of_int ArrayIndex * 8) := ptr)) p)
                         (ArrayIndex + 1, al',
                          m'(unat (pArrayOfPointers + of_int ArrayIndex * 8) := ptr)))
        else copy_chain GetNumRecordsToCopy GetArrayCopy bCopyMemberHashTables
               pArrayOfPointers (Next_of m p) st))"

text \<open>The second loop over the buckets; the bucket is read from the current memory.\<close>

function copy_buckets ::
  "(memory \<Rightarrow> ptr \<Rightarrow> 32 word) \<Rightarrow>
   (CAllocator \<Rightarrow> bool \<Rightarrow> memory \<Rightarrow> ptr \<Rightarrow> ptr \<times> CAllocator \<times> memory) \<Rightarrow>
   bool \<Rightarrow> ptr \<Rightarrow> ptr \<Rightarrow> nat \<Rightarrow> nat \<Rightarrow> int \<times> CAllocator \<times> memory \<Rightarrow>
   (error + int \<times> CAllocator \<times> memory) option" where
  "copy_buckets GetNumRecordsToCopy GetArrayCopy bCopyMemberHashTables pArrayOfPointers t n i st =
     (if i < n
      then (case copy_chain GetNumRecordsToCopy GetArrayCopy bCopyMemberHashTables
                   pArrayOfPointers (slot (snd (snd st)) t i) st of
              None \<Rightarrow> None
            | Some (Inl e) \<Rightarrow> Some (Inl e)
            | Some (Inr st') \<Rightarrow>
                copy_buckets GetNumRecordsToCopy GetArrayCopy bCopyMemberHashTables
                  pArrayOfPointers t n (Suc i) st')
      else Some (Inr st))"
  by pat_completeness auto

termination
  by (relation "measure (\<lambda>(G, C, b, a, t, n, i, st). n - i)") auto

text \<open>
  The result is the returned pointer, \<open>OutArraySize\<close>, the copy allocator and the memory.
\<close>

definition CopyHashToArray ::
  "(memory \<Rightarrow> ptr \<Rightarrow> 32 word) \<Rightarrow>
   (CAllocator \<Rightarrow> bool \<Rightarrow> memory \<Rightarrow> ptr \<Rightarrow> ptr \<times> CAllocator \<times> memory) \<Rightarrow>
   CAllocator option \<Rightarrow> bool \<Rightarrow> CHash \<Rightarrow>
   (error + ptr \<times> 32 word \<times> CAllocator option \<times> memory) option" where
  "CopyHashToArray GetNumRecordsToCopy GetArrayCopy InCopyAllocator bCopyMemberHashTables s =
     (case InCopyAllocator of
        None \<Rightarrow> Some (Inr (0, 0, None, Mem s))
      | Some al \<Rightarrow>
          if HashTable s = 0 \<or> NumTotalRecords s = 0 then Some (Inr (0, 0, Some al, Mem s))
          else (case count_buckets GetNumRecordsToCopy (Mem s) (HashTable s)
                       (nat (HashTableSize s)) 0 0 of
                  None \<Rightarrow> None
                | Some (Inl e) \<Rightarrow> Some (Inl e)
                | Some (Inr NumTotalRecordsToCopy) \<Rightarrow>
                    if NumTotalRecordsToCopy = 0 then Some (Inr (0, 0, Some al, Mem s))
                    else (case AllocateBytes (unat NumTotalRecordsToCopy * 8) 8 al of
                            (pArrayOfPointers, al1) \<Rightarrow>
                              (case copy_buckets GetNumRecordsToCopy GetArrayCopy
                                      bCopyMemberHashTables pArrayOfPointers (HashTable s)
                                      (nat (HashTableSize s)) 0 (0, al1, Mem s) of
                                 None \<Rightarrow> None
                               | Some (Inl e) \<Rightarrow> Some (Inl e)
                               | Some (Inr (ArrayIndex, al2, m2)) \<Rightarrow>
                                   Some (Inr (pArrayOfPointers, NumTotalRecordsToCopy,
                                              Some al2, m2))))))"

text \<open>
  A value type for the examples: every value has one record to copy, and the copy of a
  value is the value itself. The copy allocator of the examples is \<open>copy_arena\<close>.
\<close>

definition one_record_each :: "memory \<Rightarrow> ptr \<Rightarrow> 32 word" where
  "one_record_each m v = 1"

definition copy_is_value :: "CAllocator \<Rightarrow> bool \<Rightarrow> memory \<Rightarrow> ptr \<Rightarrow> ptr \<times> CAllocator \<times> memory" where
  "copy_is_value al deep m v = (v, al, m)"

definition copy_arena :: CAllocator where
  "copy_arena = \<lparr>arena_next = 2097152, arena_end = 3145728\<rparr>"

subsection \<open>A table with eight buckets\<close>

definition fresh8 :: CHash where
  "fresh8 = CHash_ctor storage0 (Some arena0) 8"

text \<open>Seven keys that select the buckets 4, 5, 0, 3, 2, 7 and 1 of a table of 8 buckets.\<close>

definition seven_keys :: "ptr list" where
  "seven_keys = [1048576, 1048584, 1048600, 1048624, 1048656, 1048664, 1048688]"

text \<open>The table \<open>fresh8\<close> after the lookups of the seven keys.\<close>

definition fresh8_seven :: CHash where
  "fresh8_seven =
   \<lparr>HashAllocator = Some \<lparr>arena_next = 4456, arena_end = 1048576\<rparr>,
     HashTableSize = 16, HashTable = 4328, OldHashTable = 4096,
     OldHashTableFreeRemaining = 64, NumUsedSlots = 7, MaxListLength = 0,
     NumTotalRecords = 7,
     Mem = (\<lambda>_. 0)(4096 := 4208, 4104 := 4304, 4112 := 4256, 4120 := 4232,
            4128 := 4160, 4136 := 4184, 4152 := 4280, 4160 := 1048576, 4184 := 1048584,
            4208 := 1048600, 4232 := 1048624, 4256 := 1048656, 4280 := 1048664,
            4304 := 1048688, 4328 := 4208, 4344 := 4256, 4384 := 4280, 4400 := 4304,
            4416 := 4232, 4424 := 4160, 4432 := 4184)\<rparr>"

subsection \<open>Twelve keys for one bucket\<close>





section \<open>The recycling cursor\<close>

lemma aligned_next:
  fixes p :: "64 word"
  assumes "8 dvd unat p" "unat p + 31 < 2 ^ 64"
  shows "((p + 24 + 8 - 1) div 8) * 8 = p + 24"
proof -
  have u: "unat (p + 31) = unat p + 31"
    using assms(2) by (simp add: unat_word_ariths)
  obtain k where k: "unat p = 8 * k" using assms(1) by (auto simp: dvd_def)
  have "unat ((p + 31) div 8 * 8) = unat p + 24"
    using assms(2) k u by (simp add: unat_word_ariths unat_div)
  moreover have "unat (p + 24) = unat p + 24"
    using assms(2) by (simp add: unat_word_ariths)
  ultimately have "unat ((p + 31) div 8 * 8) = unat (p + 24)" by simp
  then have "(p + 31) div 8 * 8 = p + 24" by (simp only: word_unat_eq_iff)
  moreover have "p + 24 + 8 - 1 = p + 31" by simp
  ultimately show ?thesis by (simp only:)
qed

lemma cursor_step:
  assumes "8 dvd unat (OldHashTable s)" "unat (OldHashTable s) + 31 < 2 ^ 64"
    "24 \<le> OldHashTableFreeRemaining s"
  shows "AllocateFromOldHashTable s =
     (OldHashTable s,
      if 48 \<le> OldHashTableFreeRemaining s
      then s\<lparr>OldHashTable := OldHashTable s + 24,
              OldHashTableFreeRemaining := OldHashTableFreeRemaining s - 24\<rparr>
      else s\<lparr>OldHashTable := 0, OldHashTableFreeRemaining := 0\<rparr>)"
proof -
  have a: "((OldHashTable s + 24 + 8 - 1) div 8) * 8 = OldHashTable s + 24"
    using assms(1,2) by (rule aligned_next)
  have b: "(24 \<le> OldHashTableFreeRemaining s - 24) = (48 \<le> OldHashTableFreeRemaining s)"
    using assms(3) by unat_arith
  show ?thesis
    unfolding AllocateFromOldHashTable_def Let_def a using b by simp
qed

text \<open>
  C5, as amended. With the cursor active, pointer-aligned and at least one record (24
  bytes) of its window left, \<open>LookupPointer\<close> takes the storage of the new record from
  \<open>AllocateFromOldHashTable\<close>, which always returns the prior cursor position and
  leaves the backing allocator alone. The next pointer-aligned address is 24 bytes
  further. If fewer than 24 bytes remain past it, there is no room for another record
  and the cursor is cleared, so that later allocations use the backing allocator;
  otherwise the cursor advances to that address and the remaining count drops by 24.
\<close>

theorem recycling_cursor_allocation:
  assumes "OldHashTable s \<noteq> 0" and "8 dvd unat (OldHashTable s)"
    and "unat (OldHashTable s) + 31 < 2 ^ 64"
    and "24 \<le> OldHashTableFreeRemaining s"
  shows "allocate_record s =
     Inr (OldHashTable s,
          if 24 \<le> OldHashTableFreeRemaining s - 24
          then s\<lparr>OldHashTable := OldHashTable s + 24,
                  OldHashTableFreeRemaining := OldHashTableFreeRemaining s - 24\<rparr>
          else s\<lparr>OldHashTable := 0, OldHashTableFreeRemaining := 0\<rparr>)"
proof -
  have "(24 \<le> OldHashTableFreeRemaining s - 24) = (48 \<le> OldHashTableFreeRemaining s)"
    using assms(4) by unat_arith
  then show ?thesis
    using assms(1) cursor_step [OF assms(2,3,4)] by (simp add: allocate_record_def)
qed

theorem recycling_cursor_allocation_witness:
  "OldHashTable last_room \<noteq> 0 \<and> 8 dvd unat (OldHashTable last_room) \<and>
   unat (OldHashTable last_room) + 31 < 2 ^ 64 \<and>
   24 \<le> OldHashTableFreeRemaining last_room \<and>
   allocate_record last_room =
     Inr (4096, last_room\<lparr>OldHashTable := 0, OldHashTableFreeRemaining := 0\<rparr>)"
proof -
  have h: "OldHashTable last_room \<noteq> 0" "8 dvd unat (OldHashTable last_room)"
    "unat (OldHashTable last_room) + 31 < 2 ^ 64"
    "24 \<le> OldHashTableFreeRemaining last_room"
    by (simp_all add: last_room_def storage0_def)
  show ?thesis
    using h recycling_cursor_allocation [OF h] by (simp add: last_room_def storage0_def)
qed

text \<open>
  C5 as stated fails: with 24 bytes left, none remain after the aligned step, which is
  too little for a record; yet the record is not taken from the backing allocator. Its
  storage is the prior cursor position 4096 and the allocator is unchanged.
\<close>

theorem recycling_no_fallback_counterexample:
  "OldHashTableFreeRemaining last_room - 24 < 24 \<and>
   allocate_record last_room =
     Inr (OldHashTable last_room,
          last_room\<lparr>OldHashTable := 0, OldHashTableFreeRemaining := 0\<rparr>) \<and>
   HashAllocator (snd (projr (allocate_record last_room))) = HashAllocator last_room"
  by (simp add: last_room_def storage0_def allocate_record_def AllocateFromOldHashTable_def)

section \<open>Walking a chain\<close>

declare set_concat [simp del]

lemma chain_null [simp]: "chain m 0 as \<longleftrightarrow> as = []"
  by (cases as) auto

lemma chain_unique: "chain m p as \<Longrightarrow> chain m p bs \<Longrightarrow> as = bs"
proof (induction as arbitrary: p bs)
  case Nil
  then show ?case by simp
next
  case (Cons a as)
  then show ?case by (cases bs) auto
qed

lemma chain_nonnull: "chain m p as \<Longrightarrow> 0 \<notin> set as"
  by (induction as arbitrary: p) auto

lemma chain_frame:
  "\<forall>a \<in> set as. m' (unat a + 16) = m (unat a + 16) \<Longrightarrow> chain m' p as = chain m p as"
  by (induction as arbitrary: p) (auto simp: Next_of_def)

lemma chain_snoc:
  assumes "chain m p as" "as \<noteq> []" "q \<noteq> 0"
    "m' (unat (last as) + 16) = q" "m' (unat q + 16) = 0"
    "\<forall>a \<in> set (butlast as). m' (unat a + 16) = m (unat a + 16)"
  shows "chain m' p (as @ [q])"
  using assms
proof (induction as arbitrary: p)
  case Nil
  then show ?case by simp
next
  case (Cons a as)
  show ?case
  proof (cases "as = []")
    case True
    with Cons.prems show ?thesis by (simp add: Next_of_def)
  next
    case False
    with Cons.prems have "chain m' (Next_of m a) (as @ [q])"
      by (intro Cons.IH) auto
    moreover have "Next_of m' a = Next_of m a"
      using Cons.prems False by (simp add: Next_of_def)
    ultimately show ?thesis using Cons.prems by simp
  qed
qed

lemma walk_to_tail_null: "walk_to_tail m 0 prev l mx = Some (prev, mx)"
  by (subst walk_to_tail.simps) simp

lemma walk_to_tail_chain:
  "chain m p as \<Longrightarrow>
   walk_to_tail m p prev l mx = Some (if as = [] then prev else last as, walk_max as l mx)"
proof (induction as arbitrary: p prev l mx)
  case Nil
  then show ?case by (simp add: walk_to_tail_null)
next
  case (Cons a as)
  have "walk_to_tail m a prev l mx =
      walk_to_tail m (Next_of m a) a (l + 1) (if l + 1 > mx then l + 1 else mx)"
    using Cons.prems by (subst walk_to_tail.simps) (simp add: Let_def)
  also have "\<dots> = Some (if as = [] then a else last as,
      walk_max as (l + 1) (if l + 1 > mx then l + 1 else mx))"
    using Cons.prems by (intro Cons.IH) simp
  finally show ?case using Cons.prems by simp
qed

lemma walk_chain_null: "walk_chain m k 0 prev l mx = Some (0, prev, mx)"
  by (subst walk_chain.simps) simp

lemma walk_chain_miss:
  "chain m p as \<Longrightarrow> \<forall>a \<in> set as. key_of m a \<noteq> k \<Longrightarrow>
   walk_chain m k p prev l mx = Some (0, if as = [] then prev else last as, walk_max as l mx)"
proof (induction as arbitrary: p prev l mx)
  case Nil
  then show ?case by (simp add: walk_chain_null)
next
  case (Cons a as)
  have "walk_chain m k a prev l mx =
      walk_chain m k (Next_of m a) a (l + 1) (if l + 1 > mx then l + 1 else mx)"
    using Cons.prems by (subst walk_chain.simps) (simp add: Let_def)
  also have "\<dots> = Some (0, if as = [] then a else last as,
      walk_max as (l + 1) (if l + 1 > mx then l + 1 else mx))"
    using Cons.prems by (intro Cons.IH) simp_all
  finally show ?case using Cons.prems by simp
qed

lemma walk_chain_hit:
  "chain m p (as @ a # bs) \<Longrightarrow> \<forall>b \<in> set as. key_of m b \<noteq> k \<Longrightarrow> key_of m a = k \<Longrightarrow>
   walk_chain m k p prev l mx =
     Some (a, if as = [] then prev else last as, walk_max (as @ [a]) l mx)"
proof (induction as arbitrary: p prev l mx)
  case Nil
  then show ?case by (subst walk_chain.simps) (simp add: Let_def)
next
  case (Cons c as)
  have "walk_chain m k c prev l mx =
      walk_chain m k (Next_of m c) c (l + 1) (if l + 1 > mx then l + 1 else mx)"
    using Cons.prems by (subst walk_chain.simps) (simp add: Let_def)
  also have "\<dots> = Some (a, if as = [] then c else last as,
      walk_max (as @ [a]) (l + 1) (if l + 1 > mx then l + 1 else mx))"
    using Cons.prems by (intro Cons.IH) simp_all
  finally show ?case using Cons.prems by simp
qed

lemma find_chain_null: "find_chain m k 0 = Some 0"
  by (subst find_chain.simps) simp

lemma find_chain_miss:
  "chain m p as \<Longrightarrow> \<forall>a \<in> set as. key_of m a \<noteq> k \<Longrightarrow> find_chain m k p = Some 0"
proof (induction as arbitrary: p)
  case Nil
  then show ?case by (simp add: find_chain_null)
next
  case (Cons a as)
  have "find_chain m k a = find_chain m k (Next_of m a)"
    using Cons.prems by (subst find_chain.simps) simp
  also have "\<dots> = Some 0"
    using Cons.prems by (intro Cons.IH) simp_all
  finally show ?case using Cons.prems by simp
qed

lemma find_chain_hit:
  "chain m p (as @ a # bs) \<Longrightarrow> \<forall>b \<in> set as. key_of m b \<noteq> k \<Longrightarrow> key_of m a = k \<Longrightarrow>
   find_chain m k p = Some a"
proof (induction as arbitrary: p)
  case Nil
  then show ?case by (subst find_chain.simps) simp
next
  case (Cons c as)
  have "find_chain m k c = find_chain m k (Next_of m c)"
    using Cons.prems by (subst find_chain.simps) simp
  also have "\<dots> = Some a"
    using Cons.prems by (intro Cons.IH) simp_all
  finally show ?case using Cons.prems by simp
qed

section \<open>Regrouping records by bucket\<close>

lemma length_rehash_into [simp]: "length (rehash_into h as nb) = length nb"
  by (induction as arbitrary: nb) auto

lemma concat_update_snoc:
  "j < length nb \<Longrightarrow> set (concat (nb[j := nb ! j @ [a]])) = insert a (set (concat nb))"
proof (induction nb arbitrary: j)
  case Nil
  then show ?case by simp
next
  case (Cons b nb)
  then show ?case by (cases j) auto
qed

lemma length_concat_update_snoc:
  "j < length nb \<Longrightarrow> length (concat (nb[j := nb ! j @ [a]])) = Suc (length (concat nb))"
proof (induction nb arbitrary: j)
  case Nil
  then show ?case by simp
next
  case (Cons b nb)
  then show ?case by (cases j) auto
qed

lemma distinct_concat_update_snoc:
  "j < length nb \<Longrightarrow> distinct (concat nb) \<Longrightarrow> a \<notin> set (concat nb) \<Longrightarrow>
   distinct (concat (nb[j := nb ! j @ [a]]))"
proof (induction nb arbitrary: j)
  case Nil
  then show ?case by simp
next
  case (Cons b nb)
  show ?case
  proof (cases j)
    case 0
    with Cons.prems show ?thesis by auto
  next
    case (Suc i)
    with Cons.prems have "distinct (concat (nb[i := nb ! i @ [a]]))"
      by (intro Cons.IH) auto
    moreover have "set (concat (nb[i := nb ! i @ [a]])) = insert a (set (concat nb))"
      using Cons.prems Suc by (intro concat_update_snoc) simp
    ultimately show ?thesis using Cons.prems Suc by auto
  qed
qed

lemma used_slots_update_snoc:
  assumes "j < length nb"
  shows "used_slots (nb[j := nb ! j @ [a]]) =
     (if nb ! j = [] then Suc (used_slots nb) else used_slots nb)"
proof -
  have "used_slots (take j nb @ nb ! j # drop (Suc j) nb) =
      used_slots (take j nb) + (if nb ! j = [] then 0 else 1) + used_slots (drop (Suc j) nb)"
    by (simp add: used_slots_def)
  then have 1: "used_slots nb =
      used_slots (take j nb) + (if nb ! j = [] then 0 else 1) + used_slots (drop (Suc j) nb)"
    using assms by (simp add: id_take_nth_drop [symmetric])
  have "used_slots (take j nb @ (nb ! j @ [a]) # drop (Suc j) nb) =
      used_slots (take j nb) + 1 + used_slots (drop (Suc j) nb)"
    by (simp add: used_slots_def)
  then have 2: "used_slots (nb[j := nb ! j @ [a]]) =
      used_slots (take j nb) + 1 + used_slots (drop (Suc j) nb)"
    using assms by (simp add: upd_conv_take_nth_drop)
  show ?thesis using 1 2 by simp
qed

lemma set_rehash_into:
  "\<forall>a \<in> set as. h a < length nb \<Longrightarrow>
   set (concat (rehash_into h as nb)) = set as \<union> set (concat nb)"
proof (induction as arbitrary: nb)
  case Nil
  then show ?case by simp
next
  case (Cons a as)
  have "set (concat (rehash_into h as (nb[h a := nb ! h a @ [a]]))) =
      set as \<union> set (concat (nb[h a := nb ! h a @ [a]]))"
    using Cons.prems by (intro Cons.IH) simp
  also have "set (concat (nb[h a := nb ! h a @ [a]])) = insert a (set (concat nb))"
    using Cons.prems by (intro concat_update_snoc) simp
  finally show ?case by (simp del: set_concat)
qed

lemma length_concat_rehash_into:
  "\<forall>a \<in> set as. h a < length nb \<Longrightarrow>
   length (concat (rehash_into h as nb)) = length as + length (concat nb)"
proof (induction as arbitrary: nb)
  case Nil
  then show ?case by simp
next
  case (Cons a as)
  have "length (concat (rehash_into h as (nb[h a := nb ! h a @ [a]]))) =
      length as + length (concat (nb[h a := nb ! h a @ [a]]))"
    using Cons.prems by (intro Cons.IH) simp
  also have "length (concat (nb[h a := nb ! h a @ [a]])) = Suc (length (concat nb))"
    using Cons.prems by (intro length_concat_update_snoc) simp
  finally show ?case by simp
qed

lemma distinct_rehash_into:
  "\<forall>a \<in> set as. h a < length nb \<Longrightarrow> distinct as \<Longrightarrow> distinct (concat nb) \<Longrightarrow>
   set as \<inter> set (concat nb) = {} \<Longrightarrow> distinct (concat (rehash_into h as nb))"
proof (induction as arbitrary: nb)
  case Nil
  then show ?case by simp
next
  case (Cons a as)
  have s: "set (concat (nb[h a := nb ! h a @ [a]])) = insert a (set (concat nb))"
    using Cons.prems by (intro concat_update_snoc) simp
  have "distinct (concat (rehash_into h as (nb[h a := nb ! h a @ [a]])))"
  proof (rule Cons.IH)
    show "\<forall>x \<in> set as. h x < length (nb[h a := nb ! h a @ [a]])" using Cons.prems by simp
    show "distinct as" using Cons.prems by simp
    show "distinct (concat (nb[h a := nb ! h a @ [a]]))"
      using Cons.prems by (intro distinct_concat_update_snoc) (auto simp del: set_concat)
    show "set as \<inter> set (concat (nb[h a := nb ! h a @ [a]])) = {}"
      unfolding s using Cons.prems by (auto simp del: set_concat)
  qed
  then show ?case by simp
qed

lemma placed_update_snoc:
  assumes "\<forall>j < length nb. \<forall>a \<in> set (nb ! j). h a = j" "h c < length nb"
  shows "\<forall>j < length (nb[h c := nb ! h c @ [c]]).
           \<forall>a \<in> set (nb[h c := nb ! h c @ [c]] ! j). h a = j"
proof (intro allI impI ballI)
  fix j a
  assume j: "j < length (nb[h c := nb ! h c @ [c]])"
    and a: "a \<in> set (nb[h c := nb ! h c @ [c]] ! j)"
  show "h a = j"
  proof (cases "j = h c")
    case True
    with a assms(2) have "a \<in> set (nb ! h c) \<or> a = c" by auto
    with assms True show ?thesis by auto
  next
    case False
    with a have "a \<in> set (nb ! j)" by simp
    with assms(1) j show ?thesis by simp
  qed
qed

lemma placed_rehash_into:
  "\<forall>a \<in> set as. h a < length nb \<Longrightarrow> \<forall>j < length nb. \<forall>a \<in> set (nb ! j). h a = j \<Longrightarrow>
   \<forall>j < length nb. \<forall>a \<in> set (rehash_into h as nb ! j). h a = j"
proof (induction as arbitrary: nb)
  case Nil
  then show ?case by (simp only: rehash_into.simps)
next
  case (Cons c as)
  have c: "h c < length nb" using Cons.prems(1) by simp
  have "\<forall>j < length (nb[h c := nb ! h c @ [c]]).
      \<forall>a \<in> set (rehash_into h as (nb[h c := nb ! h c @ [c]]) ! j). h a = j"
  proof (rule Cons.IH)
    show "\<forall>a \<in> set as. h a < length (nb[h c := nb ! h c @ [c]])" using Cons.prems(1) by simp
    show "\<forall>j < length (nb[h c := nb ! h c @ [c]]).
        \<forall>a \<in> set (nb[h c := nb ! h c @ [c]] ! j). h a = j"
      using Cons.prems(2) c by (rule placed_update_snoc)
  qed
  then show ?case by (simp only: rehash_into.simps length_list_update)
qed

section \<open>Insertion keeps the table well formed\<close>

lemma table_invD:
  assumes "table_inv s bs"
  shows "3 \<le> HashTableSize s" and "HashTableSize s < 2 ^ 31"
    and "length bs = nat (HashTableSize s)" and "HashTable s \<noteq> 0"
    and "chains_ok (Mem s) (HashTable s) bs"
    and "distinct (concat bs)" and "records_apart (set (concat bs))"
    and "\<forall>a \<in> set (concat bs). outside (unat (HashTable s)) (8 * length bs) a"
    and "placed (Mem s) (HashTableSize s) bs"
    and "distinct (map (key_of (Mem s)) (concat bs))"
    and "NumTotalRecords s = of_nat (length (concat bs))"
    and "NumUsedSlots s = of_nat (used_slots bs)"
    and "arena_ok s bs" and "cursor_ok s bs" and "8 dvd unat (HashTable s)"
  using assms unfolding table_inv_def by blast+

lemma bucket_of_less: "0 < n \<Longrightarrow> n < 2 ^ 31 \<Longrightarrow> bucket_of k n < nat n"
proof -
  assume n: "0 < n" "n < 2 ^ 31"
  then have "n mod 2 ^ 32 = n" by simp
  then show ?thesis using n by (simp add: bucket_of_def)
qed

text \<open>Allocation from the arena.\<close>

lemma AllocateBytes_cases:
  assumes "0 < arena_next al" "arena_end al < 2 ^ 64" "0 < sz"
  shows "(AllocateBytes sz 8 al = (0, al) \<and> arena_end al < arena_next al + 7 + sz) \<or>
         (\<exists>p. AllocateBytes sz 8 al = (of_nat p, al\<lparr>arena_next := p + sz\<rparr>) \<and>
              arena_next al \<le> p \<and> p < arena_next al + 8 \<and> 8 dvd p \<and>
              p + sz \<le> arena_end al \<and> unat (of_nat p :: ptr) = p \<and> (of_nat p :: ptr) \<noteq> 0)"
proof -
  define p where "p = ((arena_next al + 8 - 1) div 8) * 8"
  have p: "arena_next al \<le> p" "p < arena_next al + 8" "8 dvd p"
    unfolding p_def by presburger+
  show ?thesis
  proof (cases "p + sz \<le> arena_end al")
    case True
    then have lt: "p < 2 ^ 64" using assms by simp
    then have u: "unat (of_nat p :: ptr) = p" by (simp add: unat_of_nat)
    have "0 < p" using p assms by simp
    with u have nz: "(of_nat p :: ptr) \<noteq> 0" by (simp flip: unat_gt_0)
    have "AllocateBytes sz 8 al = (of_nat p, al\<lparr>arena_next := p + sz\<rparr>)"
      using True by (simp add: AllocateBytes_def p_def Let_def)
    with p True u nz show ?thesis by blast
  next
    case False
    then have "AllocateBytes sz 8 al = (0, al)"
      by (simp add: AllocateBytes_def p_def Let_def)
    moreover have "arena_end al < arena_next al + 7 + sz" using False p by simp
    ultimately show ?thesis by blast
  qed
qed

lemma nth_subset_concat: "i < length bs \<Longrightarrow> set (bs ! i) \<subseteq> set (concat bs)"
proof -
  assume "i < length bs"
  then have "bs ! i \<in> set bs" by (rule nth_mem)
  then show ?thesis by (auto simp: set_concat)
qed

lemma distinct_concat_disjoint:
  "distinct (concat bs) \<Longrightarrow> i < length bs \<Longrightarrow> j < length bs \<Longrightarrow> i \<noteq> j \<Longrightarrow>
   set (bs ! i) \<inter> set (bs ! j) = {}"
proof (induction bs arbitrary: i j)
  case Nil
  then show ?case by simp
next
  case (Cons b bs)
  from Cons.prems(1) have d: "distinct (concat bs)" and x: "set b \<inter> set (concat bs) = {}"
    by auto
  show ?case
  proof (cases i)
    case 0
    with Cons.prems obtain j' where j: "j = Suc j'" "j' < length bs" by (cases j) auto
    then have "set (bs ! j') \<subseteq> set (concat bs)" by (intro nth_subset_concat)
    with x 0 j show ?thesis by auto
  next
    case (Suc i')
    show ?thesis
    proof (cases j)
      case 0
      from Suc Cons.prems have "set (bs ! i') \<subseteq> set (concat bs)"
        by (intro nth_subset_concat) simp
      with x 0 Suc show ?thesis by auto
    next
      case (Suc j')
      with \<open>i = Suc i'\<close> Cons.prems d show ?thesis by (simp add: Cons.IH)
    qed
  qed
qed

lemma distinct_concat_nth: "distinct (concat bs) \<Longrightarrow> i < length bs \<Longrightarrow> distinct (bs ! i)"
proof (induction bs arbitrary: i)
  case Nil
  then show ?case by simp
next
  case (Cons b bs)
  then show ?case by (cases i) auto
qed

text \<open>Linking a fresh record at the end of the chain of bucket \<open>h\<close>.\<close>

lemma link_record_gen:
  fixes m :: memory and t p k :: ptr
  assumes len: "h < length bs"
    and ch: "chains_ok m t bs"
    and dist: "distinct (concat bs)"
    and sep: "records_apart (set (concat bs))"
    and ap: "\<forall>a \<in> set (concat bs). apart a p"
    and out: "\<forall>a \<in> set (concat bs). outside (unat t) (8 * length bs) a"
    and pout: "outside (unat t) (8 * length bs) p"
    and pnz: "p \<noteq> 0"
    and link: "link = (if bs ! h = [] then unat t + 8 * h else unat (last (bs ! h)) + 16)"
    and m': "m' = m(unat p + 16 := 0, link := p)"
  shows "chains_ok m' t (bs[h := bs ! h @ [p]])"
    and "\<forall>a \<in> set (concat bs). key_of m' a = key_of m a \<and> value_of m' a = value_of m a"
    and "key_of m' p = key_of m p" and "value_of m' p = value_of m p"
proof -
  have pnew: "p \<notin> set (concat bs)"
  proof
    assume "p \<in> set (concat bs)"
    with ap have "apart p p" by blast
    then show False by (simp add: apart_def)
  qed
  have mem: "a \<in> set (concat bs)" if "i < length bs" "a \<in> set (bs ! i)" for a i
    using that nth_subset_concat [of i bs] by blast
  have linkp: "link \<notin> {unat p, unat p + 8, unat p + 16}"
  proof (cases "bs ! h = []")
    case True
    then have "link = unat t + 8 * h" using link by simp
    with pout len show ?thesis by (auto simp: outside_def)
  next
    case False
    then have l: "link = unat (last (bs ! h)) + 16" using link by simp
    from False len have "last (bs ! h) \<in> set (concat bs)" by (intro mem [of h]) auto
    with ap have "apart (last (bs ! h)) p" by blast
    with l show ?thesis by (auto simp: apart_def)
  qed
  have old: "m' x = m x" if "x \<noteq> link" "x \<notin> {unat p, unat p + 8, unat p + 16}" for x
    using that by (simp add: m')
  have oldp: "m' x = m x" if "x \<in> {unat p, unat p + 8}" for x
    using that linkp by (auto simp: m')
  have oldcells: "unat a + d \<notin> {unat p, unat p + 8, unat p + 16}"
    if "a \<in> set (concat bs)" "d < 24" for a d
  proof -
    from that ap have "apart a p" by blast
    with that(2) show ?thesis by (auto simp: apart_def)
  qed
  have keyval: "unat a + d \<noteq> link" if "a \<in> set (concat bs)" "d < 16" for a d
  proof (cases "bs ! h = []")
    case True
    then have "link = unat t + 8 * h" using link by simp
    moreover from that out have "outside (unat t) (8 * length bs) a" by blast
    ultimately show ?thesis using len that(2) by (auto simp: outside_def)
  next
    case False
    then have l: "link = unat (last (bs ! h)) + 16" using link by simp
    from False len have la: "last (bs ! h) \<in> set (concat bs)" by (intro mem [of h]) auto
    show ?thesis
    proof (cases "a = last (bs ! h)")
      case True
      with l that(2) show ?thesis by simp
    next
      case False
      with sep that(1) la have "apart a (last (bs ! h))"
        unfolding records_apart_def by blast
      with l that(2) show ?thesis by (auto simp: apart_def)
    qed
  qed
  show "key_of m' p = key_of m p" using oldp [of "unat p"] by (simp add: key_of_def)
  show "value_of m' p = value_of m p" using oldp [of "unat p + 8"] by (simp add: value_of_def)
  show "\<forall>a \<in> set (concat bs). key_of m' a = key_of m a \<and> value_of m' a = value_of m a"
  proof
    fix a assume a: "a \<in> set (concat bs)"
    have "m' (unat a) = m (unat a)"
      using keyval [OF a, of 0] oldcells [OF a, of 0] by (intro old) simp_all
    moreover have "m' (unat a + 8) = m (unat a + 8)"
      using keyval [OF a, of 8] oldcells [OF a, of 8] by (intro old) simp_all
    ultimately show "key_of m' a = key_of m a \<and> value_of m' a = value_of m a"
      by (simp add: key_of_def value_of_def)
  qed
  have nextcell: "m' (unat a + 16) = m (unat a + 16)"
    if "a \<in> set (concat bs)" "bs ! h = [] \<or> a \<noteq> last (bs ! h)" for a
  proof -
    have "unat a + 16 \<noteq> link"
    proof (cases "bs ! h = []")
      case True
      then have "link = unat t + 8 * h" using link by simp
      moreover from that out have "outside (unat t) (8 * length bs) a" by blast
      ultimately show ?thesis using len by (auto simp: outside_def)
    next
      case False
      with that have "unat a \<noteq> unat (last (bs ! h))" by (simp add: word_unat_eq_iff)
      with False link show ?thesis by simp
    qed
    then show ?thesis using oldcells [OF that(1), of 16] by (intro old) simp_all
  qed
  have slotcell: "slot m' t i = slot m t i" if "i < length bs" "i \<noteq> h \<or> bs ! h \<noteq> []" for i
  proof -
    have "unat t + 8 * i \<noteq> link"
    proof (cases "bs ! h = []")
      case True
      with that link show ?thesis by simp
    next
      case False
      then have l: "link = unat (last (bs ! h)) + 16" using link by simp
      from False len have "last (bs ! h) \<in> set (concat bs)" by (intro mem [of h]) auto
      with out have "outside (unat t) (8 * length bs) (last (bs ! h))" by blast
      with l that(1) show ?thesis by (auto simp: outside_def)
    qed
    moreover have "unat t + 8 * i \<notin> {unat p, unat p + 8, unat p + 16}"
      using pout that(1) by (auto simp: outside_def)
    ultimately show ?thesis unfolding slot_def by (intro old)
  qed
  show "chains_ok m' t (bs[h := bs ! h @ [p]])"
    unfolding chains_ok_def
  proof (intro allI impI)
    fix i assume "i < length (bs[h := bs ! h @ [p]])"
    then have i: "i < length bs" by simp
    with ch have c: "chain m (slot m t i) (bs ! i)" by (simp add: chains_ok_def)
    show "chain m' (slot m' t i) (bs[h := bs ! h @ [p]] ! i)"
    proof (cases "i = h")
      case False
      have "chain m' (slot m t i) (bs ! i) = chain m (slot m t i) (bs ! i)"
      proof (rule chain_frame, rule ballI)
        fix a assume a: "a \<in> set (bs ! i)"
        then have ac: "a \<in> set (concat bs)" using i by (rule mem [rotated])
        have "bs ! h = [] \<or> a \<noteq> last (bs ! h)"
        proof (cases "bs ! h = []")
          case True then show ?thesis by simp
        next
          case ne: False
          then have "last (bs ! h) \<in> set (bs ! h)" by simp
          moreover have "set (bs ! i) \<inter> set (bs ! h) = {}"
            using dist i len False by (rule distinct_concat_disjoint)
          ultimately show ?thesis using a by auto
        qed
        with ac show "m' (unat a + 16) = m (unat a + 16)" by (rule nextcell)
      qed
      with c slotcell [OF i] False show ?thesis by simp
    next
      case True
      show ?thesis
      proof (cases "bs ! h = []")
        case e: True
        have "slot m' t h = p" using link e by (simp add: slot_def m')
        moreover have "Next_of m' p = 0" using linkp by (simp add: m' Next_of_def)
        ultimately show ?thesis using True e len pnz by simp
      next
        case ne: False
        have "chain m' (slot m t h) (bs ! h @ [p])"
        proof (rule chain_snoc)
          show "chain m (slot m t h) (bs ! h)" using c True by simp
          show "bs ! h \<noteq> []" by (rule ne)
          show "p \<noteq> 0" by (rule pnz)
          show "m' (unat (last (bs ! h)) + 16) = p" using link ne by (simp add: m')
          show "m' (unat p + 16) = 0" using linkp by (simp add: m')
          show "\<forall>a \<in> set (butlast (bs ! h)). m' (unat a + 16) = m (unat a + 16)"
          proof
            fix a assume a: "a \<in> set (butlast (bs ! h))"
            then have "a \<in> set (bs ! h)" by (rule in_set_butlastD)
            then have ac: "a \<in> set (concat bs)" using len by (rule mem [rotated])
            have "distinct (bs ! h)" using dist len by (rule distinct_concat_nth)
            then have "distinct (butlast (bs ! h) @ [last (bs ! h)])" using ne by simp
            with a have "a \<noteq> last (bs ! h)" by auto
            with ac show "m' (unat a + 16) = m (unat a + 16)" by (intro nextcell) simp_all
          qed
        qed
        with slotcell [of h] ne len True show ?thesis by simp
      qed
    qed
  qed
qed

lemma chains_ok_frame:
  assumes "chains_ok m t bs"
    and "\<forall>i < length bs. m' (unat t + 8 * i) = m (unat t + 8 * i)"
    and "\<forall>a \<in> set (concat bs). m' (unat a + 16) = m (unat a + 16)"
  shows "chains_ok m' t bs"
  unfolding chains_ok_def
proof (intro allI impI)
  fix i assume i: "i < length bs"
  have "chain m' (slot m t i) (bs ! i) = chain m (slot m t i) (bs ! i)"
  proof (rule chain_frame, rule ballI)
    fix a assume "a \<in> set (bs ! i)"
    with i nth_subset_concat [of i bs] have "a \<in> set (concat bs)" by blast
    with assms(3) show "m' (unat a + 16) = m (unat a + 16)" by blast
  qed
  moreover have "slot m' t i = slot m t i" using assms(2) i by (simp add: slot_def)
  ultimately show "chain m' (slot m' t i) (bs ! i)"
    using assms(1) i by (simp add: chains_ok_def)
qed

lemma link_record:
  fixes m :: memory and t p k :: ptr
  assumes len: "h < length bs"
    and ch: "chains_ok m t bs"
    and dist: "distinct (concat bs)"
    and sep: "records_apart (set (concat bs))"
    and ap: "\<forall>a \<in> set (concat bs). apart a p"
    and out: "\<forall>a \<in> set (concat bs). outside (unat t) (8 * length bs) a"
    and pout: "outside (unat t) (8 * length bs) p"
    and pnz: "p \<noteq> 0"
    and link: "link = (if bs ! h = [] then unat t + 8 * h else unat (last (bs ! h)) + 16)"
    and m': "m' = m(unat p := k, unat p + 8 := 0, unat p + 16 := 0, link := p)"
  shows "chains_ok m' t (bs[h := bs ! h @ [p]])"
    and "\<forall>a \<in> set (concat bs). key_of m' a = key_of m a \<and> value_of m' a = value_of m a"
    and "key_of m' p = k" and "value_of m' p = 0"
proof -
  define m1 where "m1 = m(unat p := k, unat p + 8 := 0)"
  have m1: "m' = m1(unat p + 16 := 0, link := p)" by (simp add: m' m1_def)
  have cells: "m1 (unat a + d) = m (unat a + d)" if "a \<in> set (concat bs)" "d < 24" for a d
  proof -
    from that ap have "apart a p" by blast
    with that(2) have "unat a + d \<noteq> unat p \<and> unat a + d \<noteq> unat p + 8"
      unfolding apart_def by linarith
    then show ?thesis by (simp add: m1_def)
  qed
  have tcells: "\<forall>i < length bs. m1 (unat t + 8 * i) = m (unat t + 8 * i)"
  proof (intro allI impI)
    fix i assume "i < length bs"
    with pout have "unat t + 8 * i \<noteq> unat p \<and> unat t + 8 * i \<noteq> unat p + 8"
      unfolding outside_def by linarith
    then show "m1 (unat t + 8 * i) = m (unat t + 8 * i)" by (simp add: m1_def)
  qed
  have ncells: "\<forall>a \<in> set (concat bs). m1 (unat a + 16) = m (unat a + 16)"
    using cells [of _ 16] by simp
  have ch1: "chains_ok m1 t bs"
    using ch tcells ncells by (rule chains_ok_frame)
  note g = link_record_gen [OF len ch1 dist sep ap out pout pnz link m1]
  show "chains_ok m' t (bs[h := bs ! h @ [p]])" by (rule g(1))
  show "\<forall>a \<in> set (concat bs). key_of m' a = key_of m a \<and> value_of m' a = value_of m a"
  proof
    fix a assume a: "a \<in> set (concat bs)"
    with g(2) have "key_of m' a = key_of m1 a \<and> value_of m' a = value_of m1 a" by blast
    moreover have "key_of m1 a = key_of m a" using cells [OF a, of 0] by (simp add: key_of_def)
    moreover have "value_of m1 a = value_of m a"
      using cells [OF a, of 8] by (simp add: value_of_def)
    ultimately show "key_of m' a = key_of m a \<and> value_of m' a = value_of m a" by simp
  qed
  have "key_of m1 p = k" by (simp add: m1_def key_of_def)
  with g(3) show "key_of m' p = k" by simp
  have "value_of m1 p = 0" by (simp add: m1_def value_of_def)
  with g(4) show "value_of m' p = 0" by simp
qed

lemma allocate_record_cursor:
  assumes inv: "table_inv s bs" and act: "OldHashTable s \<noteq> 0"
  shows "\<exists>sa. allocate_record s = Inr (OldHashTable s, sa) \<and> alloc_post s bs (OldHashTable s) sa"
proof -
  note ar = table_invD(13) [OF inv] and cu = table_invD(14) [OF inv]
  from ar obtain al where al: "HashAllocator s = Some al" "0 < arena_next al"
      "arena_next al \<le> arena_end al \<and> arena_end al < 2 ^ 64" "unat (HashTable s) + 8 * length bs \<le> arena_next al"
      "\<forall>a \<in> set (concat bs). unat a + 24 \<le> arena_next al"
      "unat (OldHashTable s) + unat (OldHashTableFreeRemaining s) \<le> arena_next al"
      "\<forall>x \<ge> arena_next al. Mem s x = 0"
    using act by (auto simp: arena_ok_def split: option.splits)
  from cu act have c: "8 dvd unat (OldHashTable s)" "24 \<le> unat (OldHashTableFreeRemaining s)"
      "unat (OldHashTable s) + unat (OldHashTableFreeRemaining s) \<le> unat (HashTable s) \<or>
       unat (HashTable s) + 8 * length bs \<le> unat (OldHashTable s)"
      "\<forall>a \<in> set (concat bs).
         outside (unat (OldHashTable s)) (unat (OldHashTableFreeRemaining s)) a"
    by (simp_all add: cursor_ok_def)
  define cur where "cur = OldHashTable s"
  define lft where "lft = OldHashTableFreeRemaining s"
  note c' = c [folded cur_def lft_def] and al' = al [folded cur_def lft_def]
  have lim: "unat cur + 24 < 2 ^ 64" using c'(2) al'(3,6) by simp
  have lim31: "unat cur + 31 < 2 ^ 64"
  proof -
    from c'(1) obtain q where "unat cur = 8 * q" by (auto simp: dvd_def)
    moreover have "(2::nat) ^ 64 = 18446744073709551616" by simp
    ultimately show ?thesis using lim by presburger
  qed
  have r24: "24 \<le> lft" using c'(2) by (simp add: word_le_nat_alt)
  have step: "allocate_record s =
     Inr (cur, if 48 \<le> lft then s\<lparr>OldHashTable := cur + 24, OldHashTableFreeRemaining := lft - 24\<rparr>
             else s\<lparr>OldHashTable := 0, OldHashTableFreeRemaining := 0\<rparr>)"
    using act cursor_step [of s] c'(1) lim31 r24
    by (simp add: allocate_record_def cur_def lft_def)
  have ucur: "unat (cur + 24) = unat cur + 24"
    using lim by (simp add: unat_word_ariths)
  have ur: "unat (lft - 24) = unat lft - 24"
    using r24 by (simp add: unat_sub)
  have fresh: "\<forall>a \<in> set (concat bs). apart a cur"
  proof
    fix a assume "a \<in> set (concat bs)"
    with c'(4) have "outside (unat cur) (unat lft) a" by blast
    with c'(2) show "apart a cur" by (auto simp: outside_def apart_def)
  qed
  have pout: "outside (unat (HashTable s)) (8 * length bs) cur"
    using c'(3) c'(2) by (auto simp: outside_def)
  have curnz: "cur \<noteq> 0" using act by (simp add: cur_def)
  have ar0: "arena_post s bs cur (s\<lparr>OldHashTable := 0, OldHashTableFreeRemaining := 0\<rparr>)"
    unfolding arena_post_def using al' c'(2) by simp
  show ?thesis
  proof (cases "48 \<le> lft")
    case True
    then have r48: "48 \<le> unat lft" by (simp add: word_le_nat_alt)
    let ?sa = "s\<lparr>OldHashTable := cur + 24, OldHashTableFreeRemaining := lft - 24\<rparr>"
    have w: "unat (cur + 24) + unat (lft - 24) = unat cur + unat lft"
      using ucur ur r48 by simp
    have 1: "arena_post s bs cur ?sa"
      unfolding arena_post_def using al' c'(2) w by simp
    have 2: "8 dvd unat (cur + 24)" using c'(1) ucur by simp
    have 3: "24 \<le> unat (lft - 24)" using ur r48 by simp
    have 4: "unat (cur + 24) + unat (lft - 24) \<le> unat (HashTable s) \<or>
        unat (HashTable s) + 8 * length bs \<le> unat (cur + 24)"
      using c'(3) w ucur by auto
    have 5: "\<forall>a \<in> set (concat bs). outside (unat (cur + 24)) (unat (lft - 24)) a"
    proof
      fix a assume "a \<in> set (concat bs)"
      with c'(4) have "outside (unat cur) (unat lft) a" by blast
      then show "outside (unat (cur + 24)) (unat (lft - 24)) a"
        using w ucur unfolding outside_def by linarith
    qed
    have 6: "outside (unat (cur + 24)) (unat (lft - 24)) cur"
      using ucur by (simp add: outside_def)
    have "alloc_post s bs cur ?sa"
      unfolding alloc_post_def using 1 2 3 4 5 6 fresh pout curnz by (simp add: room_def)
    with step True show ?thesis by (auto simp: cur_def)
  next
    case False
    let ?sa = "s\<lparr>OldHashTable := 0, OldHashTableFreeRemaining := 0\<rparr>"
    have "alloc_post s bs cur ?sa"
      unfolding alloc_post_def using ar0 fresh pout curnz by (simp add: room_def)
    with step False show ?thesis by (auto simp: cur_def)
  qed
qed

lemma allocate_record_arena:
  assumes inv: "table_inv s bs" and off: "OldHashTable s = 0"
  shows "(\<exists>sa. allocate_record s = Inr (0, sa) \<and> room s < 31) \<or>
         (\<exists>p sa. allocate_record s = Inr (p, sa) \<and> alloc_post s bs p sa)"
proof -
  note ar = table_invD(13) [OF inv]
  from ar obtain al where al: "HashAllocator s = Some al" "0 < arena_next al"
      "arena_next al \<le> arena_end al" "arena_end al < 2 ^ 64"
      "unat (HashTable s) + 8 * length bs \<le> arena_next al"
      "\<forall>a \<in> set (concat bs). unat a + 24 \<le> arena_next al"
      "\<forall>x \<ge> arena_next al. Mem s x = 0"
    by (auto simp: arena_ok_def split: option.splits)
  from AllocateBytes_cases [OF al(2) al(4), of 24]
  consider (full) "AllocateBytes 24 8 al = (0, al)" "arena_end al < arena_next al + 7 + 24"
    | (ok) p where "AllocateBytes 24 8 al = (of_nat p, al\<lparr>arena_next := p + 24\<rparr>)"
        "arena_next al \<le> p" "p < arena_next al + 8" "p + 24 \<le> arena_end al"
        "unat (of_nat p :: ptr) = p" "(of_nat p :: ptr) \<noteq> 0"
    by auto
  then show ?thesis
  proof cases
    case full
    then have "allocate_record s = Inr (0, s\<lparr>HashAllocator := Some al\<rparr>)"
      using off al(1) by (simp add: allocate_record_def)
    moreover have "room s < 31" using full(2) al(1,3) by (simp add: room_def)
    ultimately show ?thesis by blast
  next
    case ok
    let ?p = "of_nat p :: ptr"
    let ?sa = "s\<lparr>HashAllocator := Some (al\<lparr>arena_next := p + 24\<rparr>)\<rparr>"
    have a: "allocate_record s = Inr (?p, ?sa)"
      using off al(1) ok(1) by (simp add: allocate_record_def)
    have "\<forall>a \<in> set (concat bs). unat a + 24 \<le> p + 24"
    proof
      fix a assume "a \<in> set (concat bs)"
      with al(6) have "unat a + 24 \<le> arena_next al" by blast
      with ok(2) show "unat a + 24 \<le> p + 24" by simp
    qed
    then have 1: "arena_post s bs ?p ?sa"
      unfolding arena_post_def using al(2,4,5,7) ok off by simp
    have 2: "\<forall>a \<in> set (concat bs). apart a ?p"
    proof
      fix a assume "a \<in> set (concat bs)"
      with al(6) have "unat a + 24 \<le> arena_next al" by blast
      with ok(2,5) show "apart a ?p" by (simp add: apart_def)
    qed
    have 3: "outside (unat (HashTable s)) (8 * length bs) ?p"
      using al(5) ok(2,5) by (simp add: outside_def)
    have 4: "room s \<le> room ?sa + 31" using al(1,3) ok by (simp add: room_def)
    have "alloc_post s bs ?p ?sa"
      unfolding alloc_post_def using 1 2 3 4 ok(6) off by simp
    with a show ?thesis by blast
  qed
qed

lemma allocate_record_inv:
  assumes inv: "table_inv s bs"
  shows "(\<exists>sa. allocate_record s = Inr (0, sa) \<and> OldHashTable s = 0 \<and> room s < 31) \<or>
         (\<exists>p sa. allocate_record s = Inr (p, sa) \<and> alloc_post s bs p sa)"
proof (cases "OldHashTable s = 0")
  case True
  with allocate_record_arena [OF inv] show ?thesis by blast
next
  case False
  with allocate_record_cursor [OF inv] show ?thesis by blast
qed

lemma set_concat_snoc:
  "h < length bs \<Longrightarrow> set (concat (bs[h := bs ! h @ [p]])) = insert p (set (concat bs))"
  by (rule concat_update_snoc)

lemma add_record_inv:
  assumes inv: "table_inv s bs"
    and h: "h = bucket_of k (HashTableSize s)"
    and miss: "\<forall>a \<in> set (concat bs). key_of (Mem s) a \<noteq> k"
    and prev: "prev = (if bs ! h = [] then 0 else last (bs ! h))"
  shows "(add_record k h prev s = Inl NullDereference \<and> OldHashTable s = 0 \<and> room s < 31) \<or>
     (\<exists>p s'. add_record k h prev s = Inr (p, s') \<and>
        table_inv s' (bs[h := bs ! h @ [p]]) \<and> p \<notin> set (concat bs) \<and> p \<noteq> 0 \<and>
        key_of (Mem s') p = k \<and> value_of (Mem s') p = 0 \<and>
        (\<forall>a \<in> set (concat bs).
           key_of (Mem s') a = key_of (Mem s) a \<and> value_of (Mem s') a = value_of (Mem s) a) \<and>
        HashTableSize s' = HashTableSize s \<and> HashTable s' = HashTable s \<and>
        MaxListLength s' = MaxListLength s \<and>
        NumTotalRecords s' = NumTotalRecords s + 1 \<and>
        NumUsedSlots s' = (if bs ! h = [] then NumUsedSlots s + 1 else NumUsedSlots s) \<and>
        room s \<le> room s' + 31)"
proof -
  note sz = table_invD(1,2) [OF inv] and len = table_invD(3) [OF inv]
    and tnz = table_invD(4) [OF inv] and ch = table_invD(5) [OF inv]
    and dist = table_invD(6) [OF inv] and sep = table_invD(7) [OF inv]
    and out = table_invD(8) [OF inv] and pl = table_invD(9) [OF inv]
    and dk = table_invD(10) [OF inv] and tot = table_invD(11) [OF inv]
    and us = table_invD(12) [OF inv] and al8 = table_invD(15) [OF inv]
  have hl: "h < length bs" using sz len h bucket_of_less [of "HashTableSize s" k] by simp
  have pz: "prev = 0 \<longleftrightarrow> bs ! h = []"
  proof (cases "bs ! h = []")
    case True
    with prev show ?thesis by simp
  next
    case False
    from ch hl have "chain (Mem s) (slot (Mem s) (HashTable s) h) (bs ! h)"
      by (simp add: chains_ok_def)
    then have "0 \<notin> set (bs ! h)" by (rule chain_nonnull)
    with False prev show ?thesis by (metis last_in_set)
  qed
  from allocate_record_inv [OF inv]
  consider (full) sa where "allocate_record s = Inr (0, sa)" "OldHashTable s = 0" "room s < 31"
    | (ok) p sa where "allocate_record s = Inr (p, sa)" "alloc_post s bs p sa"
    by blast
  then show ?thesis
  proof cases
    case full
    then show ?thesis by (simp add: add_record_def)
  next
    case ok
    from ok(2) have sa: "Mem sa = Mem s" "HashTableSize sa = HashTableSize s"
        "HashTable sa = HashTable s" "NumUsedSlots sa = NumUsedSlots s"
        "MaxListLength sa = MaxListLength s" "NumTotalRecords sa = NumTotalRecords s"
      and pnz: "p \<noteq> 0" and ap: "\<forall>a \<in> set (concat bs). apart a p"
      and pout: "outside (unat (HashTable s)) (8 * length bs) p"
      and arp: "arena_post s bs p sa"
      and cup: "OldHashTable sa \<noteq> 0 \<longrightarrow>
        8 dvd unat (OldHashTable sa) \<and> 24 \<le> unat (OldHashTableFreeRemaining sa) \<and>
        (unat (OldHashTable sa) + unat (OldHashTableFreeRemaining sa) \<le> unat (HashTable s) \<or>
         unat (HashTable s) + 8 * length bs \<le> unat (OldHashTable sa)) \<and>
        (\<forall>a \<in> set (concat bs).
           outside (unat (OldHashTable sa)) (unat (OldHashTableFreeRemaining sa)) a) \<and>
        outside (unat (OldHashTable sa)) (unat (OldHashTableFreeRemaining sa)) p"
      and rm: "room s \<le> room sa + 31"
      by (simp_all add: alloc_post_def)
    define link where "link = (if bs ! h = [] then unat (HashTable s) + 8 * h
                               else unat (last (bs ! h)) + 16)"
    define m' where "m' = (Mem s)(unat p := k, unat p + 8 := 0, unat p + 16 := 0, link := p)"
    define s' where "s' = sa\<lparr>Mem := m',
        NumUsedSlots := (if bs ! h = [] then NumUsedSlots s + 1 else NumUsedSlots s),
        NumTotalRecords := NumTotalRecords s + 1\<rparr>"
    let ?bs = "bs[h := bs ! h @ [p]]"
    have res: "add_record k h prev s = Inr (p, s')"
      using ok(1) pnz pz sa prev
      by (simp add: add_record_def Let_def s'_def m'_def link_def)
    note lr = link_record [OF hl ch dist sep ap out pout pnz link_def m'_def]
    have pnew: "p \<notin> set (concat bs)"
    proof
      assume "p \<in> set (concat bs)"
      with ap have "apart p p" by blast
      then show False by (simp add: apart_def)
    qed
    have sc: "set (concat ?bs) = insert p (set (concat bs))"
      using hl by (rule set_concat_snoc)
    have 1: "chains_ok (Mem s') (HashTable s') ?bs"
      using lr(1) sa by (simp add: s'_def)
    have 2: "distinct (concat ?bs)"
      using hl dist pnew by (rule distinct_concat_update_snoc)
    have 3: "records_apart (set (concat ?bs))"
      unfolding sc records_apart_def
    proof (intro ballI impI)
      fix a b assume a: "a \<in> insert p (set (concat bs))" and b: "b \<in> insert p (set (concat bs))"
        and ne: "a \<noteq> b"
      show "apart a b"
      proof (cases "a = p")
        case True
        with b ne have "b \<in> set (concat bs)" by auto
        with ap have "apart b p" by blast
        with True show ?thesis by (auto simp: apart_def)
      next
        case False
        with a have ac: "a \<in> set (concat bs)" by simp
        show ?thesis
        proof (cases "b = p")
          case True
          with ac ap show ?thesis by blast
        next
          case False
          with b have "b \<in> set (concat bs)" by simp
          with ac ne sep show ?thesis unfolding records_apart_def by blast
        qed
      qed
    qed
    have 4: "\<forall>a \<in> set (concat ?bs). outside (unat (HashTable s')) (8 * length ?bs) a"
      unfolding sc using out pout sa by (simp add: s'_def)
    have keys: "key_of m' a = (if a = p then k else key_of (Mem s) a)"
      if "a \<in> insert p (set (concat bs))" for a
      using that lr(2,3) by auto
    have 5: "placed (Mem s') (HashTableSize s') ?bs"
      unfolding placed_def
    proof (intro allI impI ballI)
      fix i a assume i: "i < length ?bs" and a: "a \<in> set (?bs ! i)"
      then have il: "i < length bs" by simp
      show "bucket_of (key_of (Mem s') a) (HashTableSize s') = i"
      proof (cases "a = p")
        case True
        have "i = h"
        proof (rule ccontr)
          assume "i \<noteq> h"
          with a have "p \<in> set (bs ! i)" using True by simp
          with il nth_subset_concat [of i bs] pnew show False by blast
        qed
        with True lr(3) h sa show ?thesis by (simp add: s'_def)
      next
        case False
        with a hl have ai: "a \<in> set (bs ! i)" by (cases "i = h") auto
        with il nth_subset_concat [of i bs] have "a \<in> set (concat bs)" by blast
        with lr(2) have "key_of m' a = key_of (Mem s) a" by blast
        moreover from pl il ai have "bucket_of (key_of (Mem s) a) (HashTableSize s) = i"
          by (simp add: placed_def)
        ultimately show ?thesis using sa by (simp add: s'_def)
      qed
    qed
    have 6: "distinct (map (key_of (Mem s')) (concat ?bs))"
    proof -
      from dk have "inj_on (key_of (Mem s)) (set (concat bs))" by (simp add: distinct_map)
      then have "inj_on (key_of m') (set (concat bs))"
        using lr(2) by (simp add: inj_on_def)
      moreover have "key_of m' p \<notin> key_of m' ` set (concat bs)"
        using lr(2,3) miss by auto
      ultimately have "inj_on (key_of m') (insert p (set (concat bs)))"
        by (auto simp: inj_on_insert)
      with 2 sc show ?thesis by (simp add: distinct_map s'_def del: set_concat)
    qed
    have 7: "NumTotalRecords s' = of_nat (length (concat ?bs))"
      using tot hl by (simp add: s'_def length_concat_update_snoc)
    have 8: "NumUsedSlots s' = of_nat (used_slots ?bs)"
      using us hl by (simp add: s'_def used_slots_update_snoc)
    have linklt: "link + 8 \<le> unat (HashTable s) + 8 * length bs \<or>
        (\<exists>a \<in> set (concat bs). link + 8 \<le> unat a + 24)"
    proof (cases "bs ! h = []")
      case True
      with hl show ?thesis by (simp add: link_def)
    next
      case False
      then have "last (bs ! h) \<in> set (bs ! h)" by simp
      with hl nth_subset_concat [of h bs] have "last (bs ! h) \<in> set (concat bs)" by blast
      with False show ?thesis by (auto simp: link_def)
    qed
    have 9: "arena_ok s' ?bs"
    proof -
      from arp obtain al where al: "HashAllocator sa = Some al" "0 < arena_next al"
          "arena_next al \<le> arena_end al" "arena_end al < 2 ^ 64"
          "unat (HashTable s) + 8 * length bs \<le> arena_next al"
          "\<forall>a \<in> set (concat bs). unat a + 24 \<le> arena_next al"
          "unat p + 24 \<le> arena_next al"
          "OldHashTable sa \<noteq> 0 \<longrightarrow>
             unat (OldHashTable sa) + unat (OldHashTableFreeRemaining sa) \<le> arena_next al"
          "\<forall>x \<ge> arena_next al. Mem s x = 0"
        by (auto simp: arena_post_def split: option.splits)
      have ll: "link < arena_next al"
      proof -
        from linklt consider "link + 8 \<le> unat (HashTable s) + 8 * length bs"
          | a where "a \<in> set (concat bs)" "link + 8 \<le> unat a + 24" by blast
        then show ?thesis
        proof cases
          case 1
          with al(5) show ?thesis by simp
        next
          case 2
          with al(6) have "unat a + 24 \<le> arena_next al" by blast
          with 2 show ?thesis by simp
        qed
      qed
      have z: "\<forall>x \<ge> arena_next al. m' x = 0"
        using al(9,7) ll by (simp add: m'_def)
      show ?thesis
        unfolding arena_ok_def sc
        using al z sa by (simp add: s'_def)
    qed
    have 10: "cursor_ok s' ?bs"
      unfolding cursor_ok_def sc using cup sa by (simp add: s'_def)
    have "table_inv s' ?bs"
      unfolding table_inv_def
      using sz len tnz sa 1 2 3 4 5 6 7 8 9 10 al8 by (simp add: s'_def)
    moreover have "key_of (Mem s') p = k" "value_of (Mem s') p = 0"
      using lr(3,4) by (simp_all add: s'_def)
    moreover have "\<forall>a \<in> set (concat bs).
        key_of (Mem s') a = key_of (Mem s) a \<and> value_of (Mem s') a = value_of (Mem s) a"
      using lr(2) by (simp add: s'_def)
    moreover have "room s \<le> room s' + 31" using rm by (simp add: s'_def room_def)
    ultimately show ?thesis
      using res pnew pnz sa by (simp add: s'_def)
  qed
qed

section \<open>Migration\<close>

lemma touch_mono: "B \<subseteq> B' \<Longrightarrow> touch t N B \<subseteq> touch t N B'"
  by (auto simp: touch_def)

lemma touch_key:
  assumes "mig_static A t N" "b \<in> A" "d < 16"
  shows "unat b + d \<notin> touch t N A"
proof
  assume "unat b + d \<in> touch t N A"
  then consider j where "j < N" "unat b + d = unat t + 8 * j"
    | c where "c \<in> A" "unat b + d = unat c + 16"
    by (auto simp: touch_def)
  then show False
  proof cases
    case 1
    from assms(1,2) have "outside (unat t) (8 * N) b" by (simp add: mig_static_def)
    with 1 assms(3) show False unfolding outside_def by linarith
  next
    case 2
    show False
    proof (cases "c = b")
      case True
      with 2 assms(3) show False by simp
    next
      case False
      then have "b \<noteq> c" by simp
      with assms(1,2) 2(1) have "apart b c" unfolding mig_static_def records_apart_def by blast
      with 2(2) assms(3) show False unfolding apart_def by linarith
    qed
  qed
qed

lemma touch_next:
  assumes "mig_static A t N" "b \<in> A" "b \<notin> B"
  shows "unat b + 16 \<notin> touch t N B"
proof
  assume "unat b + 16 \<in> touch t N B"
  then consider j where "j < N" "unat b + 16 = unat t + 8 * j"
    | c where "c \<in> B" "unat b + 16 = unat c + 16"
    by (auto simp: touch_def)
  then show False
  proof cases
    case 1
    from assms(1,2) have "outside (unat t) (8 * N) b" by (simp add: mig_static_def)
    with 1 show False unfolding outside_def by linarith
  next
    case 2
    then have "unat b = unat c" by simp
    then have "b = c" by (simp add: word_unat_eq_iff)
    with 2(1) assms(3) show False by simp
  qed
qed

lemma records_apart_subset: "records_apart A \<Longrightarrow> B \<subseteq> A \<Longrightarrow> records_apart B"
  unfolding records_apart_def by blast

lemma int_mod_size: "0 < N \<Longrightarrow> N < 2 ^ 31 \<Longrightarrow> int N mod 2 ^ 32 \<noteq> 0"
proof -
  assume "0 < N" "N < 2 ^ 31"
  then have "int N mod 2 ^ 32 = int N" by simp
  with \<open>0 < N\<close> show ?thesis by simp
qed

lemma migrate_one:
  assumes st: "mig_static A t N" and inv: "mig_inv A kf t N s nb"
    and a: "a \<in> A" and an: "a \<notin> set (concat nb)"
    and j: "j = bucket_of (kf a) (int N)"
  shows "\<exists>s1. migrate_chain s a = migrate_chain s1 (Next_of (Mem s) a) \<and>
      mig_inv A kf t N s1 (nb[j := nb ! j @ [a]]) \<and>
      (\<forall>x. x \<notin> touch t N (insert a (set (concat nb))) \<longrightarrow> Mem s1 x = Mem s x) \<and>
      MaxListLength s1 = walk_max (nb ! j) 0 (MaxListLength s) \<and> same_rest s s1"
proof -
  from st have tnz: "t \<noteq> 0" and N: "0 < N" "N < 2 ^ 31" and sep: "records_apart A"
    and out: "\<forall>a \<in> A. outside (unat t) (8 * N) a" and nz: "0 \<notin> A"
    by (simp_all add: mig_static_def)
  from inv have ht: "HashTable s = t" and hs: "HashTableSize s = int N" and len: "length nb = N"
    and ch: "chains_ok (Mem s) t nb" and dn: "distinct (concat nb)"
    and sub: "set (concat nb) \<subseteq> A" and keys: "\<forall>a \<in> A. key_of (Mem s) a = kf a"
    and tot: "NumTotalRecords s = of_nat (length (concat nb))"
    and us: "NumUsedSlots s = of_nat (used_slots nb)"
    unfolding mig_inv_def by blast+
  have anz: "a \<noteq> 0" using a nz by auto
  have jl: "j < length nb"
    using bucket_of_less [of "int N" "kf a"] N len j by simp
  have ka: "key_of (Mem s) a = kf a" using keys a by blast
  have cj: "chain (Mem s) (slot (Mem s) t j) (nb ! j)"
    using ch jl by (simp add: chains_ok_def)
  define prev where "prev = (if nb ! j = [] then 0 else last (nb ! j))"
  define mx where "mx = walk_max (nb ! j) 0 (MaxListLength s)"
  have wt: "walk_to_tail (Mem s) (slot (Mem s) t j) 0 0 (MaxListLength s) = Some (prev, mx)"
    using walk_to_tail_chain [OF cj] by (simp add: prev_def mx_def)
  have pz: "prev = 0 \<longleftrightarrow> nb ! j = []"
  proof (cases "nb ! j = []")
    case True
    then show ?thesis by (simp add: prev_def)
  next
    case False
    from cj have "0 \<notin> set (nb ! j)" by (rule chain_nonnull)
    with False show ?thesis unfolding prev_def by (metis last_in_set)
  qed
  define link where "link = (if nb ! j = [] then unat t + 8 * j else unat (last (nb ! j)) + 16)"
  define m' where "m' = (Mem s)(unat a + 16 := 0, link := a)"
  define s1 where "s1 = s\<lparr>MaxListLength := mx, Mem := m',
      NumUsedSlots := (if nb ! j = [] then NumUsedSlots s + 1 else NumUsedSlots s),
      NumTotalRecords := NumTotalRecords s + 1\<rparr>"
  have step: "migrate_chain s a = migrate_chain s1 (Next_of (Mem s) a)"
  proof (cases "nb ! j = []")
    case True
    with pz have p0: "prev = 0" by simp
    show ?thesis
      apply (subst migrate_chain.simps)
      using anz int_mod_size [OF N] tnz True p0
      apply (simp add: ht hs ka j [symmetric] wt Let_def s1_def m'_def link_def)
      done
  next
    case False
    with pz have p0: "prev \<noteq> 0" by simp
    have pl: "prev = last (nb ! j)" using False by (simp add: prev_def)
    show ?thesis
      apply (subst migrate_chain.simps)
      using anz int_mod_size [OF N] tnz False p0
      apply (simp add: ht hs ka j [symmetric] wt Let_def s1_def m'_def link_def pl [symmetric])
      done
  qed
  have ap: "\<forall>b \<in> set (concat nb). apart b a"
  proof
    fix b assume b: "b \<in> set (concat nb)"
    with an have "b \<noteq> a" by auto
    with b sub a sep show "apart b a" unfolding records_apart_def by blast
  qed
  have outn: "\<forall>b \<in> set (concat nb). outside (unat t) (8 * length nb) b"
    using out sub len by blast
  have pout: "outside (unat t) (8 * length nb) a" using out a len by blast
  note g = link_record_gen [OF jl ch dn records_apart_subset [OF sep sub] ap outn pout anz
      link_def m'_def]
  have frame: "\<forall>x. x \<notin> touch t N (insert a (set (concat nb))) \<longrightarrow> m' x = Mem s x"
  proof (intro allI impI)
    fix x assume x: "x \<notin> touch t N (insert a (set (concat nb)))"
    have "link \<in> touch t N (insert a (set (concat nb)))"
    proof (cases "nb ! j = []")
      case True
      with jl len show ?thesis by (auto simp: link_def touch_def)
    next
      case False
      then have "last (nb ! j) \<in> set (nb ! j)" by simp
      with jl nth_subset_concat [of j nb] have "last (nb ! j) \<in> set (concat nb)" by blast
      with False show ?thesis by (auto simp: link_def touch_def)
    qed
    moreover have "unat a + 16 \<in> touch t N (insert a (set (concat nb)))"
      by (auto simp: touch_def)
    ultimately show "m' x = Mem s x" using x by (auto simp: m'_def)
  qed
  have keys': "\<forall>b \<in> A. key_of m' b = kf b"
  proof
    fix b assume b: "b \<in> A"
    have "insert a (set (concat nb)) \<subseteq> A" using a sub by simp
    from touch_mono [OF this] touch_key [OF st b, of 0]
    have "unat b \<notin> touch t N (insert a (set (concat nb)))" by auto
    with frame have "m' (unat b) = Mem s (unat b)" by blast
    with keys b show "key_of m' b = kf b" by (simp add: key_of_def)
  qed
  have "mig_inv A kf t N s1 (nb[j := nb ! j @ [a]])"
    unfolding mig_inv_def
  proof (intro conjI)
    show "HashTable s1 = t" by (simp add: s1_def ht)
    show "HashTableSize s1 = int N" by (simp add: s1_def hs)
    show "length (nb[j := nb ! j @ [a]]) = N" by (simp add: len)
    show "chains_ok (Mem s1) t (nb[j := nb ! j @ [a]])" using g(1) by (simp add: s1_def)
    show "distinct (concat (nb[j := nb ! j @ [a]]))"
      using jl dn an by (rule distinct_concat_update_snoc)
    show "set (concat (nb[j := nb ! j @ [a]])) \<subseteq> A"
      using a sub by (simp add: concat_update_snoc [OF jl])
    show "\<forall>a \<in> A. key_of (Mem s1) a = kf a" using keys' by (simp add: s1_def)
    show "NumTotalRecords s1 = of_nat (length (concat (nb[j := nb ! j @ [a]])))"
      using tot by (simp add: s1_def length_concat_update_snoc [OF jl])
    show "NumUsedSlots s1 = of_nat (used_slots (nb[j := nb ! j @ [a]]))"
      using us by (simp add: s1_def used_slots_update_snoc [OF jl])
  qed
  moreover have "\<forall>x. x \<notin> touch t N (insert a (set (concat nb))) \<longrightarrow> Mem s1 x = Mem s x"
    using frame by (simp add: s1_def)
  moreover have "MaxListLength s1 = walk_max (nb ! j) 0 (MaxListLength s)"
    by (simp add: s1_def mx_def)
  moreover have "same_rest s s1" by (simp add: same_rest_def s1_def)
  ultimately show ?thesis using step by blast
qed

lemma migrate_chain_null: "migrate_chain s 0 = Some (Inr s)"
  by (subst migrate_chain.simps) simp

lemma same_rest_refl: "same_rest s s"
  by (simp add: same_rest_def)

lemma same_rest_trans: "same_rest s s1 \<Longrightarrow> same_rest s1 s2 \<Longrightarrow> same_rest s s2"
  by (simp add: same_rest_def)

lemma migrate_chain_list:
  assumes st: "mig_static A t N"
  shows "mig_inv A kf t N s nb \<Longrightarrow> chain (Mem s) p cur \<Longrightarrow> set cur \<subseteq> A \<Longrightarrow> distinct cur \<Longrightarrow>
    set cur \<inter> set (concat nb) = {} \<Longrightarrow>
    \<exists>s'. migrate_chain s p = Some (Inr s') \<and>
      mig_inv A kf t N s' (rehash_into (\<lambda>a. bucket_of (kf a) (int N)) cur nb) \<and>
      (\<forall>x. x \<notin> touch t N (set (concat nb) \<union> set cur) \<longrightarrow> Mem s' x = Mem s x) \<and>
      MaxListLength s' =
        rehash_max (\<lambda>a. bucket_of (kf a) (int N)) cur nb (MaxListLength s) \<and>
      same_rest s s'"
proof (induction cur arbitrary: s nb p)
  case Nil
  then have "p = 0" by simp
  with Nil.prems(1) show ?case
    by (auto simp: migrate_chain_null same_rest_refl)
next
  case (Cons a cur)
  let ?h = "\<lambda>a. bucket_of (kf a) (int N)"
  from Cons.prems(2) have p: "p = a" and rest: "chain (Mem s) (Next_of (Mem s) a) cur"
    by simp_all
  have a: "a \<in> A" and an: "a \<notin> set (concat nb)" and ac: "a \<notin> set cur"
    using Cons.prems(3,4,5) by auto
  from migrate_one [OF st Cons.prems(1) a an refl]
  obtain s1 where s1: "migrate_chain s a = migrate_chain s1 (Next_of (Mem s) a)"
      "mig_inv A kf t N s1 (nb[?h a := nb ! ?h a @ [a]])"
      "\<forall>x. x \<notin> touch t N (insert a (set (concat nb))) \<longrightarrow> Mem s1 x = Mem s x"
      "MaxListLength s1 = walk_max (nb ! ?h a) 0 (MaxListLength s)" "same_rest s s1"
    by blast
  let ?nb = "nb[?h a := nb ! ?h a @ [a]]"
  from Cons.prems(1) st have jl: "?h a < length nb"
    using bucket_of_less [of "int N" "kf a"] by (simp add: mig_inv_def mig_static_def)
  have sc: "set (concat ?nb) = insert a (set (concat nb))"
    using jl by (rule concat_update_snoc)
  have rest1: "chain (Mem s1) (Next_of (Mem s) a) cur"
  proof -
    have "chain (Mem s1) (Next_of (Mem s) a) cur = chain (Mem s) (Next_of (Mem s) a) cur"
    proof (rule chain_frame, rule ballI)
      fix b assume b: "b \<in> set cur"
      with Cons.prems(3) have bA: "b \<in> A" by auto
      from b ac Cons.prems(5) have "b \<notin> insert a (set (concat nb))" by auto
      with touch_next [OF st bA] have "unat b + 16 \<notin> touch t N (insert a (set (concat nb)))"
        by blast
      with s1(3) show "Mem s1 (unat b + 16) = Mem s (unat b + 16)" by blast
    qed
    with rest show ?thesis by simp
  qed
  have "\<exists>s'. migrate_chain s1 (Next_of (Mem s) a) = Some (Inr s') \<and>
      mig_inv A kf t N s' (rehash_into ?h cur ?nb) \<and>
      (\<forall>x. x \<notin> touch t N (set (concat ?nb) \<union> set cur) \<longrightarrow> Mem s' x = Mem s1 x) \<and>
      MaxListLength s' = rehash_max ?h cur ?nb (MaxListLength s1) \<and> same_rest s1 s'"
  proof (rule Cons.IH [OF s1(2) rest1])
    show "set cur \<subseteq> A" using Cons.prems(3) by simp
    show "distinct cur" using Cons.prems(4) by simp
    show "set cur \<inter> set (concat ?nb) = {}"
      unfolding sc using Cons.prems(5) ac by auto
  qed
  then obtain s' where s': "migrate_chain s1 (Next_of (Mem s) a) = Some (Inr s')"
      "mig_inv A kf t N s' (rehash_into ?h cur ?nb)"
      "\<forall>x. x \<notin> touch t N (set (concat ?nb) \<union> set cur) \<longrightarrow> Mem s' x = Mem s1 x"
      "MaxListLength s' = rehash_max ?h cur ?nb (MaxListLength s1)" "same_rest s1 s'"
    by blast
  have fr: "\<forall>x. x \<notin> touch t N (set (concat nb) \<union> set (a # cur)) \<longrightarrow> Mem s' x = Mem s x"
  proof (intro allI impI)
    fix x assume x: "x \<notin> touch t N (set (concat nb) \<union> set (a # cur))"
    have "touch t N (insert a (set (concat nb))) \<subseteq> touch t N (set (concat nb) \<union> set (a # cur))"
      by (rule touch_mono) auto
    with x s1(3) have 1: "Mem s1 x = Mem s x" by blast
    have "set (concat ?nb) \<union> set cur = set (concat nb) \<union> set (a # cur)"
      unfolding sc by auto
    with x s'(3) have "Mem s' x = Mem s1 x" by simp
    with 1 show "Mem s' x = Mem s x" by simp
  qed
  show ?case
    using s1(1,4,5) s'(1,2,4,5) fr p same_rest_trans [OF s1(5) s'(5)] by auto
qed

lemma rehash_into_append:
  "rehash_into h (xs @ ys) nb = rehash_into h ys (rehash_into h xs nb)"
  by (induction xs arbitrary: nb) simp_all

lemma rehash_max_append:
  "rehash_max h (xs @ ys) nb mx = rehash_max h ys (rehash_into h xs nb) (rehash_max h xs nb mx)"
  by (induction xs arbitrary: nb mx) simp_all

lemma migrate_buckets_done: "n \<le> i \<Longrightarrow> migrate_buckets i n s = Some (Inr s)"
  by (subst migrate_buckets.simps) simp

lemma migrate_buckets_list:
  assumes st: "mig_static A t N" and ot: "ot \<noteq> 0"
    and otc: "\<forall>i < n. unat ot + 8 * i \<notin> touch t N A"
    and lobs: "length obs = n"
  shows "mig_inv A kf t N s nb \<Longrightarrow> OldHashTable s = ot \<Longrightarrow> i \<le> n \<Longrightarrow>
    \<forall>i'. i \<le> i' \<and> i' < n \<longrightarrow> chain (Mem s) (slot (Mem s) ot i') (obs ! i') \<Longrightarrow>
    set (concat (drop i obs)) \<subseteq> A \<Longrightarrow> distinct (concat (drop i obs)) \<Longrightarrow>
    set (concat (drop i obs)) \<inter> set (concat nb) = {} \<Longrightarrow>
    \<exists>s'. migrate_buckets i n s = Some (Inr s') \<and>
      mig_inv A kf t N s'
        (rehash_into (\<lambda>a. bucket_of (kf a) (int N)) (concat (drop i obs)) nb) \<and>
      (\<forall>x. x \<notin> touch t N A \<longrightarrow> Mem s' x = Mem s x) \<and>
      MaxListLength s' =
        rehash_max (\<lambda>a. bucket_of (kf a) (int N)) (concat (drop i obs)) nb (MaxListLength s) \<and>
      same_rest s s'"
proof (induction "n - i" arbitrary: i s nb)
  case 0
  then have "i = n" by simp
  with 0 lobs show ?case
    by (auto simp: migrate_buckets_done same_rest_refl)
next
  case (Suc d)
  let ?h = "\<lambda>a. bucket_of (kf a) (int N)"
  from Suc.hyps(2) have i: "i < n" by simp
  have dr: "drop i obs = obs ! i # drop (Suc i) obs"
    using i lobs by (simp add: Cons_nth_drop_Suc)
  have cc: "concat (drop i obs) = obs ! i @ concat (drop (Suc i) obs)"
    by (simp add: dr)
  have ci: "chain (Mem s) (slot (Mem s) ot i) (obs ! i)" using Suc.prems(4) i by simp
  have subi: "set (obs ! i) \<subseteq> A" using Suc.prems(5) by (simp add: cc)
  have di: "distinct (obs ! i)" using Suc.prems(6) by (simp add: cc)
  have disji: "set (obs ! i) \<inter> set (concat nb) = {}" using Suc.prems(7) by (auto simp: cc)
  from migrate_chain_list [OF st Suc.prems(1) ci subi di disji]
  obtain s1 where s1: "migrate_chain s (slot (Mem s) ot i) = Some (Inr s1)"
      "mig_inv A kf t N s1 (rehash_into ?h (obs ! i) nb)"
      "\<forall>x. x \<notin> touch t N (set (concat nb) \<union> set (obs ! i)) \<longrightarrow> Mem s1 x = Mem s x"
      "MaxListLength s1 = rehash_max ?h (obs ! i) nb (MaxListLength s)" "same_rest s s1"
    by blast
  let ?nb = "rehash_into ?h (obs ! i) nb"
  have subnb: "set (concat nb) \<subseteq> A" using Suc.prems(1) by (simp add: mig_inv_def)
  have tm: "touch t N (set (concat nb) \<union> set (obs ! i)) \<subseteq> touch t N A"
    using subnb subi by (intro touch_mono) auto
  have lnb: "length nb = N" using Suc.prems(1) by (simp add: mig_inv_def)
  have hl: "\<forall>a \<in> set (obs ! i). ?h a < length nb"
    using st bucket_of_less [of "int N"] lnb by (simp add: mig_static_def)
  have sc: "set (concat ?nb) = set (obs ! i) \<union> set (concat nb)"
    using hl by (rule set_rehash_into)
  have step: "migrate_buckets i n s = migrate_buckets (Suc i) n s1"
    by (subst migrate_buckets.simps) (simp add: i Suc.prems(2) ot s1(1))
  have "\<exists>s'. migrate_buckets (Suc i) n s1 = Some (Inr s') \<and>
      mig_inv A kf t N s' (rehash_into ?h (concat (drop (Suc i) obs)) ?nb) \<and>
      (\<forall>x. x \<notin> touch t N A \<longrightarrow> Mem s' x = Mem s1 x) \<and>
      MaxListLength s' = rehash_max ?h (concat (drop (Suc i) obs)) ?nb (MaxListLength s1) \<and>
      same_rest s1 s'"
  proof (rule Suc.hyps(1))
    show "d = n - Suc i" using Suc.hyps(2) by simp
    show "mig_inv A kf t N s1 ?nb" by (rule s1(2))
    show "OldHashTable s1 = ot" using s1(5) Suc.prems(2) by (simp add: same_rest_def)
    show "Suc i \<le> n" using i by simp
    show "set (concat (drop (Suc i) obs)) \<subseteq> A" using Suc.prems(5) by (simp add: cc)
    show "distinct (concat (drop (Suc i) obs))" using Suc.prems(6) by (simp add: cc)
    show "set (concat (drop (Suc i) obs)) \<inter> set (concat ?nb) = {}"
      unfolding sc using Suc.prems(6,7) by (auto simp: cc)
    show "\<forall>i'. Suc i \<le> i' \<and> i' < n \<longrightarrow> chain (Mem s1) (slot (Mem s1) ot i') (obs ! i')"
    proof (intro allI impI)
      fix i' assume i': "Suc i \<le> i' \<and> i' < n"
      then have c: "chain (Mem s) (slot (Mem s) ot i') (obs ! i')" using Suc.prems(4) by simp
      have "unat ot + 8 * i' \<notin> touch t N (set (concat nb) \<union> set (obs ! i))"
        using otc i' tm by blast
      with s1(3) have sl: "slot (Mem s1) ot i' = slot (Mem s) ot i'" by (simp add: slot_def)
      have in_drop: "set (obs ! i') \<subseteq> set (concat (drop (Suc i) obs))"
      proof -
        have "obs ! i' = drop (Suc i) obs ! (i' - Suc i)" using i' lobs by simp
        moreover have "i' - Suc i < length (drop (Suc i) obs)" using i' lobs by auto
        ultimately show ?thesis using nth_subset_concat [of "i' - Suc i" "drop (Suc i) obs"]
          by simp
      qed
      have "chain (Mem s1) (slot (Mem s) ot i') (obs ! i') =
          chain (Mem s) (slot (Mem s) ot i') (obs ! i')"
      proof (rule chain_frame, rule ballI)
        fix b assume b: "b \<in> set (obs ! i')"
        with in_drop have bd: "b \<in> set (concat (drop (Suc i) obs))" by blast
        with Suc.prems(5) have bA: "b \<in> A" by (auto simp: cc)
        from bd Suc.prems(6,7) have "b \<notin> set (concat nb) \<union> set (obs ! i)"
          by (auto simp: cc)
        with touch_next [OF st bA]
        have "unat b + 16 \<notin> touch t N (set (concat nb) \<union> set (obs ! i))" by blast
        with s1(3) show "Mem s1 (unat b + 16) = Mem s (unat b + 16)" by blast
      qed
      with c sl show "chain (Mem s1) (slot (Mem s1) ot i') (obs ! i')" by simp
    qed
  qed
  then obtain s' where s': "migrate_buckets (Suc i) n s1 = Some (Inr s')"
      "mig_inv A kf t N s' (rehash_into ?h (concat (drop (Suc i) obs)) ?nb)"
      "\<forall>x. x \<notin> touch t N A \<longrightarrow> Mem s' x = Mem s1 x"
      "MaxListLength s' = rehash_max ?h (concat (drop (Suc i) obs)) ?nb (MaxListLength s1)"
      "same_rest s1 s'"
    by blast
  have fr: "\<forall>x. x \<notin> touch t N A \<longrightarrow> Mem s' x = Mem s x"
  proof (intro allI impI)
    fix x assume x: "x \<notin> touch t N A"
    with tm have "x \<notin> touch t N (set (concat nb) \<union> set (obs ! i))" by blast
    with s1(3) have "Mem s1 x = Mem s x" by blast
    moreover from x s'(3) have "Mem s' x = Mem s1 x" by blast
    ultimately show "Mem s' x = Mem s x" by simp
  qed
  have 1: "migrate_buckets i n s = Some (Inr s')" using step s'(1) by simp
  have 2: "mig_inv A kf t N s' (rehash_into ?h (concat (drop i obs)) nb)"
    using s'(2) by (simp only: cc rehash_into_append)
  have 3: "MaxListLength s' = rehash_max ?h (concat (drop i obs)) nb (MaxListLength s)"
    using s'(4) s1(4) by (simp only: cc rehash_max_append)
  from 1 2 3 fr same_rest_trans [OF s1(5) s'(5)] show ?case by blast
qed

section \<open>Growing the table\<close>

lemma migrate_chain_null_table:
  "p \<noteq> 0 \<Longrightarrow> HashTableSize s mod 2 ^ 32 \<noteq> 0 \<Longrightarrow> HashTable s = 0 \<Longrightarrow>
   migrate_chain s p = Some (Inl NullDereference)"
  by (subst migrate_chain.simps) simp

lemma migrate_buckets_null:
  "HashTable s = 0 \<Longrightarrow> HashTableSize s mod 2 ^ 32 \<noteq> 0 \<Longrightarrow> OldHashTable s \<noteq> 0 \<Longrightarrow>
   i \<le> i0 \<Longrightarrow> i0 < n \<Longrightarrow> slot (Mem s) (OldHashTable s) i0 \<noteq> 0 \<Longrightarrow>
   migrate_buckets i n s = Some (Inl NullDereference)"
proof (induction "i0 - i" arbitrary: i)
  case 0
  then have "i = i0" by simp
  with 0 show ?case
    by (subst migrate_buckets.simps) (simp add: migrate_chain_null_table)
next
  case (Suc d)
  then have i: "i < n" "i < i0" by simp_all
  show ?case
  proof (cases "slot (Mem s) (OldHashTable s) i = 0")
    case True
    have "migrate_buckets i n s = migrate_buckets (Suc i) n s"
      using i Suc.prems(3) True
      by (subst migrate_buckets.simps) (simp add: migrate_chain_null)
    also have "\<dots> = Some (Inl NullDereference)"
      using Suc.hyps(2) Suc.prems i by (intro Suc.hyps(1)) simp_all
    finally show ?thesis .
  next
    case False
    with i Suc.prems show ?thesis
      by (subst migrate_buckets.simps) (simp add: migrate_chain_null_table)
  qed
qed

lemma used_slots_replicate [simp]: "used_slots (replicate N []) = 0"
  by (simp add: used_slots_def)

lemma concat_replicate_Nil [simp]: "concat (replicate N []) = []"
  by (induction N) simp_all

lemma chains_nonnull:
  assumes "chains_ok m t bs"
  shows "0 \<notin> set (concat bs)"
proof
  assume "0 \<in> set (concat bs)"
  then obtain b where b: "b \<in> set bs" "0 \<in> set b" by (auto simp: set_concat)
  then obtain i where i: "i < length bs" "bs ! i = b" by (auto simp: in_set_conv_nth)
  with assms have "chain m (slot m t i) b" by (auto simp: chains_ok_def)
  then have "0 \<notin> set b" by (rule chain_nonnull)
  with b show False by simp
qed

lemma unat_of_int_bytes:
  assumes "0 \<le> n" "n < 2 ^ 31"
  shows "unat (of_int (n * 8) :: 64 word) = 8 * nat n"
proof -
  define k where "k = 8 * nat n"
  have "n * 8 = int k" using assms by (simp add: k_def)
  then have "(of_int (n * 8) :: 64 word) = of_nat k" by (simp only: of_int_of_nat_eq)
  moreover have "k < 2 ^ 64" using assms by (simp add: k_def)
  ultimately have "unat (of_int (n * 8) :: 64 word) = k" by (simp add: unat_of_nat)
  then show ?thesis by (simp add: k_def)
qed

lemma Increase_unfold:
  assumes "3 \<le> HashTableSize s" "HashTableSize s * 2 < 2 ^ 31" "HashAllocator s = Some al"
    "AllocateBytes (16 * nat (HashTableSize s)) 8 al = (t, al')"
  shows "IncreaseHashTableSize s = migrate_buckets 0 (nat (HashTableSize s)) (grown s t al')"
proof -
  have "(HashTableSize s * 2 * 8) mod 2 ^ 64 = HashTableSize s * 16"
    using assms(1,2) by simp
  then have "nat ((HashTableSize s * 2 * 8) mod 2 ^ 64) = 16 * nat (HashTableSize s)"
    using assms(1) by simp
  then show ?thesis
    using assms by (simp add: IncreaseHashTableSize_def Let_def grown_def)
qed

lemma Increase_overflow:
  assumes "3 \<le> HashTableSize s" "2 ^ 31 \<le> HashTableSize s * 2"
  shows "IncreaseHashTableSize s = Some (Inl SignedOverflow)"
  using assms by (simp add: IncreaseHashTableSize_def Let_def)

lemma Increase_null:
  assumes inv: "table_inv s bs" and ne: "concat bs \<noteq> []"
    and no: "HashTableSize s * 2 < 2 ^ 31"
    and al: "HashAllocator s = Some al"
    and full: "AllocateBytes (16 * nat (HashTableSize s)) 8 al = (0, al)"
  shows "IncreaseHashTableSize s = Some (Inl NullDereference)"
proof -
  note sz = table_invD(1,2) [OF inv] and len = table_invD(3) [OF inv]
    and tnz = table_invD(4) [OF inv] and ch = table_invD(5) [OF inv]
  from ne obtain b where b: "b \<in> set bs" "b \<noteq> []" by (auto simp: concat_eq_Nil_conv)
  then obtain i0 where i0: "i0 < length bs" "bs ! i0 = b" by (auto simp: in_set_conv_nth)
  with ch have c: "chain (Mem s) (slot (Mem s) (HashTable s) i0) b" by (auto simp: chains_ok_def)
  have "slot (Mem s) (HashTable s) i0 \<noteq> 0"
  proof
    assume "slot (Mem s) (HashTable s) i0 = 0"
    with c have "b = []" by simp
    with b show False by simp
  qed
  then have sl: "slot (Mem (grown s 0 al)) (OldHashTable (grown s 0 al)) i0 \<noteq> 0"
    by (simp add: grown_def)
  have md: "HashTableSize (grown s 0 al) mod 2 ^ 32 \<noteq> 0"
    using sz no by (simp add: grown_def)
  have "migrate_buckets 0 (nat (HashTableSize s)) (grown s 0 al) = Some (Inl NullDereference)"
  proof (rule migrate_buckets_null [OF _ md _ _ _ sl])
    show "HashTable (grown s 0 al) = 0" by (simp add: grown_def)
    show "OldHashTable (grown s 0 al) \<noteq> 0" using tnz by (simp add: grown_def)
    show "0 \<le> i0" by simp
    show "i0 < nat (HashTableSize s)" using i0 len by simp
  qed
  with Increase_unfold [OF sz(1) no al full] show ?thesis by simp
qed

lemma Increase_ok:
  assumes inv: "table_inv s bs"
    and no: "HashTableSize s * 2 < 2 ^ 31"
    and al: "HashAllocator s = Some al"
    and ok: "AllocateBytes (16 * nat (HashTableSize s)) 8 al =
        (of_nat p, al\<lparr>arena_next := p + 16 * nat (HashTableSize s)\<rparr>)"
      "arena_next al \<le> p" "8 dvd p" "p + 16 * nat (HashTableSize s) \<le> arena_end al"
      "unat (of_nat p :: ptr) = p" "(of_nat p :: ptr) \<noteq> 0"
    and h: "h = (\<lambda>a. bucket_of (key_of (Mem s) a) (HashTableSize s * 2))"
    and bs': "bs' = rehash_into h (concat bs) (replicate (2 * length bs) [])"
  shows "\<exists>s'. IncreaseHashTableSize s = Some (Inr s') \<and> table_inv s' bs' \<and>
      HashTableSize s' = HashTableSize s * 2 \<and>
      (\<forall>a \<in> set (concat bs).
         key_of (Mem s') a = key_of (Mem s) a \<and> value_of (Mem s') a = value_of (Mem s) a) \<and>
      MaxListLength s' = rehash_max h (concat bs) (replicate (2 * length bs) []) 0 \<and>
      HashAllocator s' = Some (al\<lparr>arena_next := p + 16 * nat (HashTableSize s)\<rparr>)"
proof -
  note sz = table_invD(1,2) [OF inv] and len = table_invD(3) [OF inv]
    and tnz = table_invD(4) [OF inv] and ch = table_invD(5) [OF inv]
    and dist = table_invD(6) [OF inv] and sep = table_invD(7) [OF inv]
    and out = table_invD(8) [OF inv] and pl = table_invD(9) [OF inv]
    and dk = table_invD(10) [OF inv] and al8 = table_invD(15) [OF inv]
    and ar = table_invD(13) [OF inv]
  define n where "n = nat (HashTableSize s)"
  define N where "N = 2 * n"
  define t :: ptr where "t = of_nat p"
  define al' where "al' = al\<lparr>arena_next := p + 16 * n\<rparr>"
  define A where "A = set (concat bs)"
  define s0 where "s0 = grown s t al'"
  have n3: "3 \<le> n" using sz by (simp add: n_def)
  have lenn: "length bs = n" using len by (simp add: n_def)
  have Nint: "int N = HashTableSize s * 2" using sz by (simp add: N_def n_def)
  have N31: "N < 2 ^ 31" using no sz by (simp add: N_def n_def)
  have ut: "unat t = p" using ok(5) by (simp add: t_def)
  from ar al have arena: "0 < arena_next al" "arena_next al \<le> arena_end al"
      "arena_end al < 2 ^ 64" "unat (HashTable s) + 8 * n \<le> arena_next al"
      "\<forall>a \<in> A. unat a + 24 \<le> arena_next al" "\<forall>x \<ge> arena_next al. Mem s x = 0"
    by (simp_all add: arena_ok_def lenn A_def)
  have unf: "IncreaseHashTableSize s = migrate_buckets 0 n s0"
    using Increase_unfold [OF sz(1) no al ok(1)] by (simp add: s0_def n_def t_def al'_def)
  have st: "mig_static A t N"
    unfolding mig_static_def
  proof (intro conjI)
    show "t \<noteq> 0" using ok(6) by (simp add: t_def)
    show "0 < N" using n3 by (simp add: N_def)
    show "N < 2 ^ 31" by (rule N31)
    show "records_apart A" using sep by (simp add: A_def)
    show "\<forall>a \<in> A. outside (unat t) (8 * N) a"
    proof
      fix a assume "a \<in> A"
      with arena(5) have "unat a + 24 \<le> arena_next al" by blast
      with ok(2) ut show "outside (unat t) (8 * N) a" by (simp add: outside_def)
    qed
    show "0 \<notin> A" using chains_nonnull [OF ch] by (simp add: A_def)
  qed
  have mi: "mig_inv A (key_of (Mem s)) t N s0 (replicate N [])"
    unfolding mig_inv_def
  proof (intro conjI)
    show "HashTable s0 = t" by (simp add: s0_def grown_def)
    show "HashTableSize s0 = int N" using Nint by (simp add: s0_def grown_def)
    show "length (replicate N []) = N" by simp
    show "chains_ok (Mem s0) t (replicate N [])"
      unfolding chains_ok_def
    proof (intro allI impI)
      fix i assume "i < length (replicate N [])"
      have "Mem s (p + 8 * i) = 0" using arena(6) ok(2) by simp
      then show "chain (Mem s0) (slot (Mem s0) t i) (replicate N [] ! i)"
        using \<open>i < length (replicate N [])\<close> by (simp add: s0_def grown_def slot_def ut)
    qed
    show "distinct (concat (replicate N []))" by simp
    show "set (concat (replicate N [])) \<subseteq> A" by simp
    show "\<forall>a \<in> A. key_of (Mem s0) a = key_of (Mem s) a" by (simp add: s0_def grown_def)
    show "NumTotalRecords s0 = of_nat (length (concat (replicate N [])))"
      by (simp add: s0_def grown_def)
    show "NumUsedSlots s0 = of_nat (used_slots (replicate N []))"
      by (simp add: s0_def grown_def)
  qed
  have otc: "\<forall>i < n. unat (HashTable s) + 8 * i \<notin> touch t N A"
  proof (intro allI impI notI)
    fix i assume i: "i < n" and "unat (HashTable s) + 8 * i \<in> touch t N A"
    then consider j where "j < N" "unat (HashTable s) + 8 * i = unat t + 8 * j"
      | c where "c \<in> A" "unat (HashTable s) + 8 * i = unat c + 16"
      by (auto simp: touch_def)
    then show False
    proof cases
      case 1
      with arena(4) ok(2) ut i show False by simp
    next
      case 2
      with out have "outside (unat (HashTable s)) (8 * n) c" by (simp add: A_def lenn)
      with 2(2) i show False unfolding outside_def by linarith
    qed
  qed
  have heq: "(\<lambda>a. bucket_of (key_of (Mem s) a) (int N)) = h" by (simp add: h Nint)
  have m0: "Mem s0 = Mem s" "MaxListLength s0 = 0" by (simp_all add: s0_def grown_def)
  have bsN: "rehash_into h (concat bs) (replicate N []) = bs'" by (simp add: bs' lenn N_def)
  have "\<exists>s'. migrate_buckets 0 n s0 = Some (Inr s') \<and>
      mig_inv A (key_of (Mem s)) t N s'
        (rehash_into (\<lambda>a. bucket_of (key_of (Mem s) a) (int N)) (concat (drop 0 bs))
           (replicate N [])) \<and>
      (\<forall>x. x \<notin> touch t N A \<longrightarrow> Mem s' x = Mem s0 x) \<and>
      MaxListLength s' =
        rehash_max (\<lambda>a. bucket_of (key_of (Mem s) a) (int N)) (concat (drop 0 bs))
          (replicate N []) (MaxListLength s0) \<and>
      same_rest s0 s'"
  proof (rule migrate_buckets_list [OF st tnz otc lenn mi])
    show "OldHashTable s0 = HashTable s" by (simp add: s0_def grown_def)
    show "0 \<le> n" by simp
    show "\<forall>i'. 0 \<le> i' \<and> i' < n \<longrightarrow>
        chain (Mem s0) (slot (Mem s0) (HashTable s) i') (bs ! i')"
      using ch lenn by (simp add: chains_ok_def s0_def grown_def)
    show "set (concat (drop 0 bs)) \<subseteq> A" by (simp add: A_def)
    show "distinct (concat (drop 0 bs))" using dist by simp
    show "set (concat (drop 0 bs)) \<inter> set (concat (replicate N [])) = {}" by simp
  qed
  then obtain s' where s': "migrate_buckets 0 n s0 = Some (Inr s')"
      "mig_inv A (key_of (Mem s)) t N s' bs'"
      "\<forall>x. x \<notin> touch t N A \<longrightarrow> Mem s' x = Mem s x"
      "MaxListLength s' = rehash_max h (concat bs) (replicate N []) 0"
      "same_rest s0 s'"
    unfolding heq m0 drop_0 bsN by blast
  from s'(2) have ht: "HashTable s' = t" and hs: "HashTableSize s' = int N"
    and lb: "length bs' = N" and ch': "chains_ok (Mem s') t bs'"
    and dn: "distinct (concat bs')" and keys: "\<forall>a \<in> A. key_of (Mem s') a = key_of (Mem s) a"
    and tot: "NumTotalRecords s' = of_nat (length (concat bs'))"
    and us: "NumUsedSlots s' = of_nat (used_slots bs')"
    unfolding mig_inv_def by blast+
  define r :: "64 word" where "r = of_int (HashTableSize s * 8)"
  from s'(5) have rest: "HashAllocator s' = Some al'" "OldHashTable s' = HashTable s"
      "OldHashTableFreeRemaining s' = r"
    by (simp_all add: same_rest_def s0_def grown_def r_def)
  have hl: "\<forall>a \<in> set (concat bs). h a < length (replicate N [] :: ptr list list)"
  proof
    fix a
    have "bucket_of (key_of (Mem s) a) (int N) < nat (int N)"
      using N31 n3 by (intro bucket_of_less) (simp_all add: N_def)
    then show "h a < length (replicate N [] :: ptr list list)"
      by (simp add: heq [symmetric])
  qed
  have sc: "set (concat bs') = A"
    unfolding bs' lenn N_def [symmetric] using set_rehash_into [OF hl] by (simp add: A_def)
  have vals: "\<forall>a \<in> A. value_of (Mem s') a = value_of (Mem s) a"
  proof
    fix a assume "a \<in> A"
    from touch_key [OF st this, of 8] s'(3) show "value_of (Mem s') a = value_of (Mem s) a"
      by (simp add: value_of_def)
  qed
  have urem: "unat r = 8 * n"
    unfolding r_def using unat_of_int_bytes [of "HashTableSize s"] sz by (simp add: n_def)
  have "table_inv s' bs'"
    unfolding table_inv_def
  proof (intro conjI)
    show "3 \<le> HashTableSize s'" using hs Nint sz by simp
    show "HashTableSize s' < 2 ^ 31" using hs Nint no by simp
    show "length bs' = nat (HashTableSize s')" using lb hs by simp
    show "HashTable s' \<noteq> 0" using ht ok(6) by (simp add: t_def)
    show "chains_ok (Mem s') (HashTable s') bs'" using ch' ht by simp
    show "distinct (concat bs')" by (rule dn)
    show "records_apart (set (concat bs'))" using sep by (simp add: sc A_def)
    show "\<forall>a \<in> set (concat bs'). outside (unat (HashTable s')) (8 * length bs') a"
      using st by (simp add: sc ht lb mig_static_def)
    show "placed (Mem s') (HashTableSize s') bs'"
      unfolding placed_def
    proof (intro allI impI ballI)
      fix i a assume i: "i < length bs'" and a: "a \<in> set (bs' ! i)"
      have "\<forall>j < length (replicate N [] :: ptr list list).
          \<forall>a \<in> set (rehash_into h (concat bs) (replicate N []) ! j). h a = j"
        using hl by (rule placed_rehash_into) simp
      with i a have "h a = i" by (simp add: bs' lenn N_def)
      moreover from i a nth_subset_concat [of i bs'] have "a \<in> A" using sc by blast
      with keys have "key_of (Mem s') a = key_of (Mem s) a" by blast
      ultimately show "bucket_of (key_of (Mem s') a) (HashTableSize s') = i"
        by (simp add: h hs Nint)
    qed
    show "distinct (map (key_of (Mem s')) (concat bs'))"
    proof -
      from dk have "inj_on (key_of (Mem s)) A" by (simp add: distinct_map A_def)
      then have "inj_on (key_of (Mem s')) A" using keys by (simp add: inj_on_def)
      with dn sc show ?thesis by (simp add: distinct_map)
    qed
    show "NumTotalRecords s' = of_nat (length (concat bs'))" by (rule tot)
    show "NumUsedSlots s' = of_nat (used_slots bs')" by (rule us)
    show "arena_ok s' bs'"
    proof -
      have z: "\<forall>x \<ge> p + 16 * n. Mem s' x = 0"
      proof (intro allI impI)
        fix x assume x: "p + 16 * n \<le> x"
        have "x \<notin> touch t N A"
        proof
          assume "x \<in> touch t N A"
          then consider j where "j < N" "x = unat t + 8 * j"
            | c where "c \<in> A" "x = unat c + 16"
            by (auto simp: touch_def)
          then show False
          proof cases
            case 1
            with x ut show False by (simp add: N_def)
          next
            case 2
            with arena(5) have "unat c + 24 \<le> arena_next al" by blast
            with 2(2) x ok(2) show False by simp
          qed
        qed
        with s'(3) have "Mem s' x = Mem s x" by blast
        moreover have "arena_next al \<le> x" using x ok(2) by simp
        ultimately show "Mem s' x = 0" using arena(6) by simp
      qed
      have r: "\<forall>a \<in> A. unat a + 24 \<le> p + 16 * n"
      proof
        fix a assume "a \<in> A"
        with arena(5) have "unat a + 24 \<le> arena_next al" by blast
        with ok(2) show "unat a + 24 \<le> p + 16 * n" by simp
      qed
      show ?thesis
        unfolding arena_ok_def
        using rest arena(1,3,4) ok(2,4) z r ut
        by (simp add: al'_def ht lb sc urem N_def n_def [symmetric])
    qed
    show "cursor_ok s' bs'"
      unfolding cursor_ok_def
      using rest al8 n3 arena(4) ok(2) ut out
      by (simp add: urem ht lb sc A_def lenn)
    show "8 dvd unat (HashTable s')" using ht ut ok(3) by simp
  qed
  moreover have "HashTableSize s' = HashTableSize s * 2" using hs Nint by simp
  moreover have "\<forall>a \<in> set (concat bs).
      key_of (Mem s') a = key_of (Mem s) a \<and> value_of (Mem s') a = value_of (Mem s) a"
    using keys vals by (simp add: A_def)
  moreover have "MaxListLength s' = rehash_max h (concat bs) (replicate (2 * length bs) []) 0"
    using s'(4) by (simp add: N_def lenn)
  moreover have "HashAllocator s' = Some (al\<lparr>arena_next := p + 16 * nat (HashTableSize s)\<rparr>)"
    using rest(1) by (simp add: al'_def n_def)
  ultimately show ?thesis using unf s'(1) by simp
qed

lemma migrate_buckets_empty:
  "\<forall>i' < n. slot (Mem s) (OldHashTable s) i' = 0 \<Longrightarrow> OldHashTable s \<noteq> 0 \<Longrightarrow>
   migrate_buckets i n s = Some (Inr s)"
proof (induction "n - i" arbitrary: i)
  case 0
  then show ?case by (simp add: migrate_buckets_done)
next
  case (Suc d)
  then have i: "i < n" by simp
  have "migrate_buckets i n s = migrate_buckets (Suc i) n s"
    using i Suc.prems by (subst migrate_buckets.simps) (simp add: migrate_chain_null)
  also have "\<dots> = Some (Inr s)"
    using Suc.hyps(2) Suc.prems by (intro Suc.hyps(1)) simp_all
  finally show ?case .
qed

lemma Increase_empty:
  assumes inv: "table_inv s bs" and e: "concat bs = []"
    and no: "HashTableSize s * 2 < 2 ^ 31"
    and al: "HashAllocator s = Some al"
    and full: "AllocateBytes (16 * nat (HashTableSize s)) 8 al = (0, al)"
  shows "IncreaseHashTableSize s = Some (Inr (grown s 0 al))"
proof -
  note sz = table_invD(1,2) [OF inv] and len = table_invD(3) [OF inv]
    and ch = table_invD(5) [OF inv]
  from Increase_unfold [OF sz(1) no al full]
  have u: "IncreaseHashTableSize s = migrate_buckets 0 (nat (HashTableSize s)) (grown s 0 al)" .
  have "\<forall>i' < nat (HashTableSize s).
      slot (Mem (grown s 0 al)) (OldHashTable (grown s 0 al)) i' = 0"
  proof (intro allI impI)
    fix i' assume i': "i' < nat (HashTableSize s)"
    with len have "bs ! i' \<in> set bs" by simp
    with e have "bs ! i' = []" by (auto simp: concat_eq_Nil_conv)
    moreover from ch i' len have "chain (Mem s) (slot (Mem s) (HashTable s) i') (bs ! i')"
      by (simp add: chains_ok_def)
    ultimately show "slot (Mem (grown s 0 al)) (OldHashTable (grown s 0 al)) i' = 0"
      by (simp add: grown_def)
  qed
  from migrate_buckets_empty [OF this] u table_invD(4) [OF inv] show ?thesis
    by (simp add: grown_def)
qed

section \<open>Lookup\<close>

lemma table_inv_MaxListLength [simp]:
  "table_inv (s\<lparr>MaxListLength := x\<rparr>) bs = table_inv s bs"
  by (simp add: table_inv_def arena_ok_def cursor_ok_def cong: option.case_cong)

lemma room_MaxListLength [simp]: "room (s\<lparr>MaxListLength := x\<rparr>) = room s"
  by (simp add: room_def)

lemma inv_bucket:
  assumes inv: "table_inv s bs"
  shows "bucket_of k (HashTableSize s) < length bs"
  using table_invD(1,2,3) [OF inv] bucket_of_less [of "HashTableSize s" k] by simp

lemma inv_size_mod:
  assumes inv: "table_inv s bs"
  shows "HashTableSize s mod 2 ^ 32 \<noteq> 0"
  using table_invD(1,2) [OF inv] by simp

lemma inv_in_bucket:
  assumes inv: "table_inv s bs" and a: "a \<in> set (concat bs)"
  shows "a \<in> set (bs ! bucket_of (key_of (Mem s) a) (HashTableSize s))"
proof -
  from a obtain b where "b \<in> set bs" "a \<in> set b" by (auto simp: set_concat)
  then obtain i where i: "i < length bs" "a \<in> set (bs ! i)" by (auto simp: in_set_conv_nth)
  with table_invD(9) [OF inv] have "bucket_of (key_of (Mem s) a) (HashTableSize s) = i"
    by (simp add: placed_def)
  with i show ?thesis by simp
qed

lemma inv_key_unique:
  assumes inv: "table_inv s bs" and "a \<in> set (concat bs)" "b \<in> set (concat bs)"
    and "key_of (Mem s) a = key_of (Mem s) b"
  shows "a = b"
proof -
  from table_invD(10) [OF inv] have "inj_on (key_of (Mem s)) (set (concat bs))"
    by (simp add: distinct_map)
  with assms(2-) show ?thesis by (auto dest: inj_onD)
qed

text \<open>The chain of a key's bucket, split at the key's record.\<close>

lemma inv_split:
  assumes inv: "table_inv s bs" and a: "a \<in> set (concat bs)" and k: "key_of (Mem s) a = k"
  shows "\<exists>as cs. bs ! bucket_of k (HashTableSize s) = as @ a # cs \<and>
      (\<forall>b \<in> set as. key_of (Mem s) b \<noteq> k) \<and>
      chain (Mem s) (slot (Mem s) (HashTable s) (bucket_of k (HashTableSize s))) (as @ a # cs)"
proof -
  let ?h = "bucket_of k (HashTableSize s)"
  have hl: "?h < length bs" by (rule inv_bucket [OF inv])
  have ab: "a \<in> set (bs ! ?h)" using inv_in_bucket [OF inv a] k by simp
  then obtain as cs where sp: "bs ! ?h = as @ a # cs" by (auto simp: in_set_conv_decomp)
  have d: "distinct (bs ! ?h)" using table_invD(6) [OF inv] hl by (rule distinct_concat_nth)
  have "\<forall>b \<in> set as. key_of (Mem s) b \<noteq> k"
  proof (intro ballI notI)
    fix b assume b: "b \<in> set as" and kb: "key_of (Mem s) b = k"
    with sp have "b \<in> set (bs ! ?h)" by simp
    with hl nth_subset_concat [of ?h bs] have "b \<in> set (concat bs)" by blast
    with inv_key_unique [OF inv this a] kb k have "b = a" by simp
    with b d sp show False by simp
  qed
  moreover have "chain (Mem s) (slot (Mem s) (HashTable s) ?h) (bs ! ?h)"
    using table_invD(5) [OF inv] hl by (simp add: chains_ok_def)
  ultimately show ?thesis using sp by auto
qed

lemma inv_miss:
  assumes inv: "table_inv s bs" and miss: "\<forall>a \<in> set (concat bs). key_of (Mem s) a \<noteq> k"
  shows "\<forall>a \<in> set (bs ! bucket_of k (HashTableSize s)). key_of (Mem s) a \<noteq> k"
    and "chain (Mem s) (slot (Mem s) (HashTable s) (bucket_of k (HashTableSize s)))
           (bs ! bucket_of k (HashTableSize s))"
proof -
  let ?h = "bucket_of k (HashTableSize s)"
  have hl: "?h < length bs" by (rule inv_bucket [OF inv])
  show "\<forall>a \<in> set (bs ! ?h). key_of (Mem s) a \<noteq> k"
    using miss hl nth_subset_concat [of ?h bs] by blast
  show "chain (Mem s) (slot (Mem s) (HashTable s) ?h) (bs ! ?h)"
    using table_invD(5) [OF inv] hl by (simp add: chains_ok_def)
qed

lemma find_record_hit:
  assumes inv: "table_inv s bs" and a: "a \<in> set (concat bs)" and k: "key_of (Mem s) a = k"
  shows "find_record s k = Some a"
proof -
  from inv_split [OF inv a k] obtain as cs where
    "\<forall>b \<in> set as. key_of (Mem s) b \<noteq> k"
    "chain (Mem s) (slot (Mem s) (HashTable s) (bucket_of k (HashTableSize s))) (as @ a # cs)"
    by blast
  then show ?thesis unfolding find_record_def using k by (intro find_chain_hit)
qed

lemma find_record_miss:
  assumes inv: "table_inv s bs" and miss: "\<forall>a \<in> set (concat bs). key_of (Mem s) a \<noteq> k"
  shows "find_record s k = Some 0"
  unfolding find_record_def using inv_miss [OF inv miss] by (intro find_chain_miss)

lemma find_record_cases:
  assumes inv: "table_inv s bs"
  shows "(find_record s k = Some 0 \<and> (\<forall>a \<in> set (concat bs). key_of (Mem s) a \<noteq> k)) \<or>
         (\<exists>a. find_record s k = Some a \<and> a \<noteq> 0 \<and> a \<in> set (concat bs) \<and> key_of (Mem s) a = k)"
proof (cases "\<forall>a \<in> set (concat bs). key_of (Mem s) a \<noteq> k")
  case True
  with find_record_miss [OF inv] show ?thesis by blast
next
  case False
  then obtain a where a: "a \<in> set (concat bs)" "key_of (Mem s) a = k" by blast
  moreover have "a \<noteq> 0" using chains_nonnull [OF table_invD(5) [OF inv]] a(1) by auto
  ultimately show ?thesis using find_record_hit [OF inv] by blast
qed

lemma find_or_add_found:
  assumes inv: "table_inv s bs" and a: "a \<in> set (concat bs)" and k: "key_of (Mem s) a = k"
  shows "\<exists>mx. find_or_add k s = Some (Inr (False, a, s\<lparr>MaxListLength := mx\<rparr>))"
proof -
  from inv_split [OF inv a k] obtain as cs where sp:
    "\<forall>b \<in> set as. key_of (Mem s) b \<noteq> k"
    "chain (Mem s) (slot (Mem s) (HashTable s) (bucket_of k (HashTableSize s))) (as @ a # cs)"
    by blast
  have anz: "a \<noteq> 0" using chains_nonnull [OF table_invD(5) [OF inv]] a by auto
  from walk_chain_hit [OF sp(2) sp(1) k]
  have "walk_chain (Mem s) k (slot (Mem s) (HashTable s) (bucket_of k (HashTableSize s))) 0 0
      (MaxListLength s) =
      Some (a, if as = [] then 0 else last as, walk_max (as @ [a]) 0 (MaxListLength s))" .
  then obtain prev mx where
    "walk_chain (Mem s) k (slot (Mem s) (HashTable s) (bucket_of k (HashTableSize s))) 0 0
      (MaxListLength s) = Some (a, prev, mx)" by blast
  then have "find_or_add k s = Some (Inr (False, a, s\<lparr>MaxListLength := mx\<rparr>))"
    using inv_size_mod [OF inv] table_invD(4) [OF inv] anz
    by (simp add: find_or_add_def Let_def)
  then show ?thesis by blast
qed

lemma LookupPointer_found:
  assumes inv: "table_inv s bs" and a: "a \<in> set (concat bs)" and k: "key_of (Mem s) a = k"
  shows "\<exists>mx. LookupPointer k s = Some (Inr (a + 8, s\<lparr>MaxListLength := mx\<rparr>))"
proof -
  from find_or_add_found [OF inv a k] obtain mx where
    "find_or_add k s = Some (Inr (False, a, s\<lparr>MaxListLength := mx\<rparr>))" by blast
  then have "LookupPointer k s = Some (Inr (a + 8, s\<lparr>MaxListLength := mx\<rparr>))"
    by (simp add: LookupPointer_def)
  then show ?thesis by blast
qed

lemma set_regrouped:
  assumes inv: "table_inv s bs" and no: "HashTableSize s * 2 < 2 ^ 31"
  shows "set (concat (regrouped s bs)) = set (concat bs)"
proof -
  let ?h = "\<lambda>a. bucket_of (key_of (Mem s) a) (HashTableSize s * 2)"
  have "\<forall>a \<in> set (concat bs). ?h a < length (replicate (2 * length bs) [] :: ptr list list)"
  proof
    fix a
    have "?h a < nat (HashTableSize s * 2)"
      using table_invD(1) [OF inv] no by (intro bucket_of_less) simp_all
    then show "?h a < length (replicate (2 * length bs) [] :: ptr list list)"
      using table_invD(1,3) [OF inv] by simp
  qed
  from set_rehash_into [OF this] show ?thesis by (simp add: regrouped_def)
qed

lemma Increase_cases:
  assumes inv: "table_inv s bs"
  shows "(2 ^ 31 \<le> HashTableSize s * 2 \<and> IncreaseHashTableSize s = Some (Inl SignedOverflow)) \<or>
    (HashTableSize s * 2 < 2 ^ 31 \<and> room s < 16 * length bs + 7 \<and>
      (concat bs \<noteq> [] \<longrightarrow> IncreaseHashTableSize s = Some (Inl NullDereference)) \<and>
      (concat bs = [] \<longrightarrow>
         (\<exists>s'. IncreaseHashTableSize s = Some (Inr s') \<and> HashTable s' = 0))) \<or>
    (HashTableSize s * 2 < 2 ^ 31 \<and>
      (\<exists>s'. IncreaseHashTableSize s = Some (Inr s') \<and> table_inv s' (regrouped s bs) \<and>
         HashTableSize s' = HashTableSize s * 2 \<and>
         (\<forall>a \<in> set (concat bs).
            key_of (Mem s') a = key_of (Mem s) a \<and> value_of (Mem s') a = value_of (Mem s) a) \<and>
         MaxListLength s' = regrouped_max s bs \<and>
         room s \<le> room s' + 16 * length bs + 7))"
proof (cases "2 ^ 31 \<le> HashTableSize s * 2")
  case True
  with Increase_overflow [OF table_invD(1) [OF inv]] show ?thesis by simp
next
  case False
  then have no: "HashTableSize s * 2 < 2 ^ 31" by simp
  note sz = table_invD(1,2) [OF inv] and len = table_invD(3) [OF inv]
  from table_invD(13) [OF inv] obtain al where al: "HashAllocator s = Some al"
      "0 < arena_next al" "arena_next al \<le> arena_end al" "arena_end al < 2 ^ 64"
    by (auto simp: arena_ok_def split: option.splits)
  have pos: "0 < 16 * nat (HashTableSize s)" using sz by simp
  from AllocateBytes_cases [OF al(2,4) pos]
  consider (full) "AllocateBytes (16 * nat (HashTableSize s)) 8 al = (0, al)"
      "arena_end al < arena_next al + 7 + 16 * nat (HashTableSize s)"
    | (ok) p where "AllocateBytes (16 * nat (HashTableSize s)) 8 al =
        (of_nat p, al\<lparr>arena_next := p + 16 * nat (HashTableSize s)\<rparr>)"
      "arena_next al \<le> p" "p < arena_next al + 8" "8 dvd p"
      "p + 16 * nat (HashTableSize s) \<le> arena_end al"
      "unat (of_nat p :: ptr) = p" "(of_nat p :: ptr) \<noteq> 0"
    by auto
  then show ?thesis
  proof cases
    case full
    have "room s < 16 * length bs + 7" using full(2) al(1,3) len by (simp add: room_def)
    moreover have "concat bs \<noteq> [] \<longrightarrow> IncreaseHashTableSize s = Some (Inl NullDereference)"
      using Increase_null [OF inv _ no al(1) full(1)] by blast
    moreover have "concat bs = [] \<longrightarrow>
        (\<exists>s'. IncreaseHashTableSize s = Some (Inr s') \<and> HashTable s' = 0)"
      using Increase_empty [OF inv _ no al(1) full(1)] by (auto simp: grown_def)
    ultimately show ?thesis using no by blast
  next
    case ok
    from Increase_ok [OF inv no al(1) ok(1,2,4,5,6,7) refl refl]
    obtain s' where s': "IncreaseHashTableSize s = Some (Inr s')" "table_inv s' (regrouped s bs)"
        "HashTableSize s' = HashTableSize s * 2"
        "\<forall>a \<in> set (concat bs).
           key_of (Mem s') a = key_of (Mem s) a \<and> value_of (Mem s') a = value_of (Mem s) a"
        "MaxListLength s' = regrouped_max s bs"
        "HashAllocator s' = Some (al\<lparr>arena_next := p + 16 * nat (HashTableSize s)\<rparr>)"
      unfolding regrouped_def regrouped_max_def by blast
    have "room s \<le> room s' + 16 * length bs + 7"
      using s'(6) al(1,3) ok(3,5) len by (simp add: room_def)
    with s' no show ?thesis by blast
  qed
qed

lemma find_again_inv:
  assumes inv: "table_inv s bs" and a: "a \<in> set (concat bs)" and k: "key_of (Mem s) a = k"
  shows "find_again k s = Some (Inr (a + 8, s))"
proof -
  have anz: "a \<noteq> 0" using chains_nonnull [OF table_invD(5) [OF inv]] a by auto
  from find_record_hit [OF inv a k] show ?thesis
    using inv_size_mod [OF inv] table_invD(4) [OF inv] anz
    by (simp add: find_again_def find_record_def Let_def)
qed

lemma LookupPointer_new:
  assumes inv: "table_inv s bs" and miss: "\<forall>a \<in> set (concat bs). key_of (Mem s) a \<noteq> k"
    and h: "h = bucket_of k (HashTableSize s)"
    and mx: "mx = walk_max (bs ! h) 0 (MaxListLength s)"
  shows "(find_or_add k s = Some (Inl NullDereference) \<and>
      LookupPointer k s = Some (Inl NullDereference) \<and> OldHashTable s = 0 \<and> room s < 31) \<or>
     (\<exists>p s1. find_or_add k s = Some (Inr (True, p, s1)) \<and> table_inv s1 (bs[h := bs ! h @ [p]]) \<and> p \<notin> set (concat bs) \<and> p \<noteq> 0 \<and>
        key_of (Mem s1) p = k \<and> value_of (Mem s1) p = 0 \<and>
        (\<forall>a \<in> set (concat bs).
           key_of (Mem s1) a = key_of (Mem s) a \<and> value_of (Mem s1) a = value_of (Mem s) a) \<and>
        HashTableSize s1 = HashTableSize s \<and> HashTable s1 = HashTable s \<and>
        MaxListLength s1 = mx \<and>
        NumTotalRecords s1 = NumTotalRecords s + 1 \<and>
        NumUsedSlots s1 = (if bs ! h = [] then NumUsedSlots s + 1 else NumUsedSlots s) \<and>
        room s \<le> room s1 + 31 \<and>
        LookupPointer k s =
          (if resize_needed s1
           then (case IncreaseHashTableSize s1 of
                   None \<Rightarrow> None
                 | Some (Inl e) \<Rightarrow> Some (Inl e)
                 | Some (Inr s2) \<Rightarrow> find_again k s2)
           else Some (Inr (p + 8, s1))))"
proof -
  define prev where "prev = (if bs ! h = [] then 0 else last (bs ! h))"
  define sm where "sm = s\<lparr>MaxListLength := mx\<rparr>"
  note im = inv_miss [OF inv miss, folded h]
  have w: "walk_chain (Mem s) k (slot (Mem s) (HashTable s) h) 0 0 (MaxListLength s) =
      Some (0, prev, mx)"
    using walk_chain_miss [OF im(2) im(1)] by (simp add: prev_def mx)
  have F: "find_or_add k s =
      (case add_record k h prev sm of
         Inl e \<Rightarrow> Some (Inl e)
       | Inr (pNewHashRec, s) \<Rightarrow> Some (Inr (True, pNewHashRec, s)))"
    using inv_size_mod [OF inv] table_invD(4) [OF inv] w
    by (simp add: find_or_add_def Let_def h [symmetric] sm_def)
  have invm: "table_inv sm bs" using inv by (simp add: sm_def)
  have hm: "h = bucket_of k (HashTableSize sm)" by (simp add: sm_def h)
  have missm: "\<forall>a \<in> set (concat bs). key_of (Mem sm) a \<noteq> k" using miss by (simp add: sm_def)
  from add_record_inv [OF invm hm missm prev_def]
  consider (full) "add_record k h prev sm = Inl NullDereference" "OldHashTable sm = 0"
      "room sm < 31"
    | (ok) p s1 where "add_record k h prev sm = Inr (p, s1)"
      "table_inv s1 (bs[h := bs ! h @ [p]])" "p \<notin> set (concat bs)" "p \<noteq> 0"
      "key_of (Mem s1) p = k" "value_of (Mem s1) p = 0"
      "\<forall>a \<in> set (concat bs).
         key_of (Mem s1) a = key_of (Mem sm) a \<and> value_of (Mem s1) a = value_of (Mem sm) a"
      "HashTableSize s1 = HashTableSize sm" "HashTable s1 = HashTable sm"
      "MaxListLength s1 = MaxListLength sm" "NumTotalRecords s1 = NumTotalRecords sm + 1"
      "NumUsedSlots s1 = (if bs ! h = [] then NumUsedSlots sm + 1 else NumUsedSlots sm)"
      "room sm \<le> room s1 + 31"
    by blast
  then show ?thesis
  proof cases
    case full
    then show ?thesis using F by (simp add: sm_def LookupPointer_def)
  next
    case ok
    have F1: "find_or_add k s = Some (Inr (True, p, s1))" using F ok(1) by simp
    then have "LookupPointer k s =
          (if resize_needed s1
           then (case IncreaseHashTableSize s1 of
                   None \<Rightarrow> None
                 | Some (Inl e) \<Rightarrow> Some (Inl e)
                 | Some (Inr s2) \<Rightarrow> find_again k s2)
           else Some (Inr (p + 8, s1)))"
      by (simp add: LookupPointer_def)
    with F1 ok(2-) show ?thesis unfolding sm_def
      by (intro disjI2 exI [of _ p] exI [of _ s1]) simp
  qed
qed

lemma LookupPointer_inv:
  assumes inv: "table_inv s bs"
  shows "LookupPointer k s = Some (Inl NullDereference) \<or>
     LookupPointer k s = Some (Inl SignedOverflow) \<or>
     (\<exists>a s' bs'. LookupPointer k s = Some (Inr (a + 8, s')) \<and> table_inv s' bs' \<and>
        a \<in> set (concat bs') \<and> key_of (Mem s') a = k \<and>
        set (concat bs') = insert a (set (concat bs)) \<and>
        (\<forall>b \<in> set (concat bs).
           key_of (Mem s') b = key_of (Mem s) b \<and> value_of (Mem s') b = value_of (Mem s) b) \<and>
        (a \<notin> set (concat bs) \<longrightarrow> value_of (Mem s') a = 0))"
proof (cases "\<forall>a \<in> set (concat bs). key_of (Mem s) a \<noteq> k")
  case False
  then obtain a where a: "a \<in> set (concat bs)" "key_of (Mem s) a = k" by blast
  from LookupPointer_found [OF inv a] obtain mx where
    "LookupPointer k s = Some (Inr (a + 8, s\<lparr>MaxListLength := mx\<rparr>))" by blast
  moreover have "table_inv (s\<lparr>MaxListLength := mx\<rparr>) bs" using inv by simp
  moreover have "set (concat bs) = insert a (set (concat bs))" using a by auto
  ultimately show ?thesis using a
    by (intro disjI2 exI [of _ a] exI [of _ "s\<lparr>MaxListLength := mx\<rparr>"] exI [of _ bs]) simp
next
  case True
  let ?h = "bucket_of k (HashTableSize s)"
  from LookupPointer_new [OF inv True refl refl]
  consider (full) "LookupPointer k s = Some (Inl NullDereference)"
    | (ok) p s1 where "table_inv s1 (bs[?h := bs ! ?h @ [p]])" "p \<notin> set (concat bs)"
      "key_of (Mem s1) p = k" "value_of (Mem s1) p = 0"
      "\<forall>a \<in> set (concat bs).
         key_of (Mem s1) a = key_of (Mem s) a \<and> value_of (Mem s1) a = value_of (Mem s) a"
      "LookupPointer k s =
          (if resize_needed s1
           then (case IncreaseHashTableSize s1 of
                   None \<Rightarrow> None
                 | Some (Inl e) \<Rightarrow> Some (Inl e)
                 | Some (Inr s2) \<Rightarrow> find_again k s2)
           else Some (Inr (p + 8, s1)))"
    by blast
  then show ?thesis
  proof cases
    case full
    then show ?thesis by simp
  next
    case ok
    let ?bs1 = "bs[?h := bs ! ?h @ [p]]"
    have sc: "set (concat ?bs1) = insert p (set (concat bs))"
      using inv_bucket [OF inv] by (rule concat_update_snoc)
    show ?thesis
    proof (cases "resize_needed s1")
      case False
      with ok(6) have "LookupPointer k s = Some (Inr (p + 8, s1))" by simp
      with ok(1-5) sc show ?thesis
        by (intro disjI2 exI [of _ p] exI [of _ s1] exI [of _ ?bs1]) simp
    next
      case True
      have ne: "concat ?bs1 \<noteq> []"
      proof
        assume "concat ?bs1 = []"
        then have "set (concat ?bs1) = {}" by simp
        with sc show False by simp
      qed
      from Increase_cases [OF ok(1)]
      consider (ov) "IncreaseHashTableSize s1 = Some (Inl SignedOverflow)"
        | (nu) "IncreaseHashTableSize s1 = Some (Inl NullDereference)"
        | (gr) s2 where "HashTableSize s1 * 2 < 2 ^ 31" "IncreaseHashTableSize s1 = Some (Inr s2)"
          "table_inv s2 (regrouped s1 ?bs1)"
          "\<forall>a \<in> set (concat ?bs1).
            key_of (Mem s2) a = key_of (Mem s1) a \<and> value_of (Mem s2) a = value_of (Mem s1) a"
        using ne by blast
      then show ?thesis
      proof cases
        case ov
        with ok(6) True show ?thesis by simp
      next
        case nu
        with ok(6) True show ?thesis by simp
      next
        case gr
        have sr: "set (concat (regrouped s1 ?bs1)) = insert p (set (concat bs))"
          using set_regrouped [OF ok(1) gr(1)] sc by simp
        have kp: "key_of (Mem s2) p = k" and vp: "value_of (Mem s2) p = 0"
          using gr(4) sc ok(3,4) by auto
        have pin: "p \<in> set (concat (regrouped s1 ?bs1))" using sr by simp
        have "find_again k s2 = Some (Inr (p + 8, s2))"
          using gr(3) pin kp by (rule find_again_inv)
        with ok(6) True gr(2) have "LookupPointer k s = Some (Inr (p + 8, s2))" by simp
        moreover have "\<forall>b \<in> set (concat bs).
            key_of (Mem s2) b = key_of (Mem s) b \<and> value_of (Mem s2) b = value_of (Mem s) b"
          using gr(4) ok(5) sc by auto
        ultimately show ?thesis using gr(3) pin kp vp sr
          by (intro disjI2 exI [of _ p] exI [of _ s2] exI [of _ "regrouped s1 ?bs1"]) simp
      qed
    qed
  qed
qed

lemma store_value_inv:
  assumes inv: "table_inv s bs" and a: "a \<in> set (concat bs)"
  shows "table_inv (store_value (a + 8) v s) bs"
    and "value_of (Mem (store_value (a + 8) v s)) a = v"
    and "\<forall>b \<in> set (concat bs). key_of (Mem (store_value (a + 8) v s)) b = key_of (Mem s) b"
    and "\<forall>b \<in> set (concat bs). b \<noteq> a \<longrightarrow>
          value_of (Mem (store_value (a + 8) v s)) b = value_of (Mem s) b"
proof -
  note sz = table_invD(1,2) [OF inv] and len = table_invD(3) [OF inv]
    and tnz = table_invD(4) [OF inv] and ch = table_invD(5) [OF inv]
    and dist = table_invD(6) [OF inv] and sep = table_invD(7) [OF inv]
    and out = table_invD(8) [OF inv] and pl = table_invD(9) [OF inv]
    and dk = table_invD(10) [OF inv] and tot = table_invD(11) [OF inv]
    and us = table_invD(12) [OF inv] and ar = table_invD(13) [OF inv]
    and cu = table_invD(14) [OF inv] and al8 = table_invD(15) [OF inv]
  from ar obtain al where al: "HashAllocator s = Some al" "0 < arena_next al"
      "arena_next al \<le> arena_end al" "arena_end al < 2 ^ 64"
      "unat (HashTable s) + 8 * length bs \<le> arena_next al"
      "\<forall>a \<in> set (concat bs). unat a + 24 \<le> arena_next al"
      "OldHashTable s \<noteq> 0 \<longrightarrow>
         unat (OldHashTable s) + unat (OldHashTableFreeRemaining s) \<le> arena_next al"
      "\<forall>x \<ge> arena_next al. Mem s x = 0"
    by (auto simp: arena_ok_def split: option.splits)
  from al(6) a have alim: "unat a + 24 \<le> arena_next al" by blast
  then have ua: "unat (a + 8) = unat a + 8"
    using al(3,4) by (simp add: unat_word_ariths)
  define m' where "m' = (Mem s)(unat a + 8 := v)"
  have st: "store_value (a + 8) v s = s\<lparr>Mem := m'\<rparr>"
    by (simp add: store_value_def ua m'_def)
  have other: "unat b + d \<noteq> unat a + 8" if "b \<in> set (concat bs)" "b \<noteq> a" "d < 24" for b d
  proof -
    from sep that(1,2) a have "apart b a" unfolding records_apart_def by blast
    with that(3) show ?thesis unfolding apart_def by linarith
  qed
  have key: "m' (unat b) = Mem s (unat b)" if "b \<in> set (concat bs)" for b
  proof (cases "b = a")
    case True
    then show ?thesis by (simp add: m'_def)
  next
    case False
    with other [OF that, of 0] show ?thesis by (simp add: m'_def)
  qed
  have nxt: "m' (unat b + 16) = Mem s (unat b + 16)" if "b \<in> set (concat bs)" for b
  proof (cases "b = a")
    case True
    then show ?thesis by (simp add: m'_def)
  next
    case False
    with other [OF that, of 16] show ?thesis by (simp add: m'_def)
  qed
  have val: "m' (unat b + 8) = Mem s (unat b + 8)" if "b \<in> set (concat bs)" "b \<noteq> a" for b
    using other [OF that, of 8] by (simp add: m'_def)
  have slots: "\<forall>i < length bs. m' (unat (HashTable s) + 8 * i) = Mem s (unat (HashTable s) + 8 * i)"
  proof (intro allI impI)
    fix i assume "i < length bs"
    moreover from out a have "outside (unat (HashTable s)) (8 * length bs) a" by blast
    ultimately have "unat (HashTable s) + 8 * i \<noteq> unat a + 8"
      unfolding outside_def by linarith
    then show "m' (unat (HashTable s) + 8 * i) = Mem s (unat (HashTable s) + 8 * i)"
      by (simp add: m'_def)
  qed
  have keys: "\<forall>b \<in> set (concat bs). key_of m' b = key_of (Mem s) b"
    using key by (simp add: key_of_def)
  have nxts: "\<forall>b \<in> set (concat bs). m' (unat b + 16) = Mem s (unat b + 16)"
    using nxt by blast
  have 1: "chains_ok m' (HashTable s) bs"
    using ch slots nxts by (rule chains_ok_frame)
  have 2: "placed m' (HashTableSize s) bs"
    unfolding placed_def
  proof (intro allI impI ballI)
    fix i b assume i: "i < length bs" and b: "b \<in> set (bs ! i)"
    with nth_subset_concat [of i bs] have "b \<in> set (concat bs)" by blast
    with keys have "key_of m' b = key_of (Mem s) b" by blast
    with pl i b show "bucket_of (key_of m' b) (HashTableSize s) = i" by (simp add: placed_def)
  qed
  have 3: "distinct (map (key_of m') (concat bs))"
  proof -
    have "map (key_of m') (concat bs) = map (key_of (Mem s)) (concat bs)"
      using keys by (intro map_cong) simp_all
    with dk show ?thesis by (simp only:)
  qed
  have z: "\<forall>x \<ge> arena_next al. m' x = 0"
    using al(8) alim by (simp add: m'_def)
  have 4: "arena_ok (s\<lparr>Mem := m'\<rparr>) bs"
    unfolding arena_ok_def using al(1-7) z by simp
  have 5: "cursor_ok (s\<lparr>Mem := m'\<rparr>) bs"
    using cu by (simp add: cursor_ok_def)
  show "table_inv (store_value (a + 8) v s) bs"
    unfolding st table_inv_def
    using sz len tnz dist sep out tot us al8 1 2 3 4 5 by simp
  show "value_of (Mem (store_value (a + 8) v s)) a = v"
    by (simp add: st value_of_def m'_def)
  show "\<forall>b \<in> set (concat bs). key_of (Mem (store_value (a + 8) v s)) b = key_of (Mem s) b"
    using keys by (simp add: st)
  show "\<forall>b \<in> set (concat bs). b \<noteq> a \<longrightarrow>
      value_of (Mem (store_value (a + 8) v s)) b = value_of (Mem s) b"
    using val by (simp add: st value_of_def)
qed

lemma CHash_ctor_inv:
  assumes "0 < arena_next al" "arena_next al \<le> arena_end al" "arena_end al < 2 ^ 64"
    and zero: "\<forall>x \<ge> arena_next al. Mem st x = 0"
    and cur: "OldHashTable st = 0"
    and n: "3 \<le> n" "n < 2 ^ 31"
    and ok: "HashTable (CHash_ctor st (Some al) n) \<noteq> 0"
  shows "table_inv (CHash_ctor st (Some al) n) (replicate (nat n) [])"
proof -
  have sz: "nat (n * 8) = 8 * nat n" using n by simp
  have pos: "0 < 8 * nat n" using n by simp
  from AllocateBytes_cases [OF assms(1,3) pos]
  consider (full) "AllocateBytes (8 * nat n) 8 al = (0, al)"
    | (ok) p where "AllocateBytes (8 * nat n) 8 al = (of_nat p, al\<lparr>arena_next := p + 8 * nat n\<rparr>)"
      "arena_next al \<le> p" "8 dvd p" "p + 8 * nat n \<le> arena_end al"
      "unat (of_nat p :: ptr) = p" "(of_nat p :: ptr) \<noteq> 0"
    by auto
  then show ?thesis
  proof cases
    case full
    with ok n show ?thesis by (simp add: CHash_ctor_def sz)
  next
    case ok
    define s where "s = CHash_ctor st (Some al) n"
    have s: "s = st\<lparr>HashAllocator := Some (al\<lparr>arena_next := p + 8 * nat n\<rparr>),
        HashTableSize := n, NumUsedSlots := 0, MaxListLength := 0, NumTotalRecords := 0,
        HashTable := of_nat p\<rparr>"
      using n ok(1) by (simp add: s_def CHash_ctor_def sz)
    have ch: "chains_ok (Mem s) (HashTable s) (replicate (nat n) [])"
      unfolding chains_ok_def
    proof (intro allI impI)
      fix i assume i: "i < length (replicate (nat n) [] :: ptr list list)"
      have "Mem st (p + 8 * i) = 0" using zero ok(2) by simp
      with i show "chain (Mem s) (slot (Mem s) (HashTable s) i) (replicate (nat n) [] ! i)"
        by (simp add: s slot_def ok(5))
    qed
    have ar: "arena_ok s (replicate (nat n) [])"
      unfolding arena_ok_def using assms(1,3) ok(2,4,5) zero cur by (simp add: s)
    have "table_inv s (replicate (nat n) [])"
      unfolding table_inv_def
      using n ch ar ok(3,5,6) cur
      by (simp add: s cursor_ok_def placed_def records_apart_def)
    then show ?thesis by (simp add: s_def)
  qed
qed

section \<open>The operations keep the table well formed\<close>

lemma on_chain_iff: "chain m p as \<Longrightarrow> on_chain m p a \<longleftrightarrow> a \<in> set as"
proof
  assume c: "chain m p as"
  show "on_chain m p a \<Longrightarrow> a \<in> set as"
  proof -
    assume "on_chain m p a"
    then show "a \<in> set as" using c
    proof (induction arbitrary: as)
      case (here p)
      then show ?case by (cases as) auto
    next
      case (further p a)
      then show ?case by (cases as) auto
    qed
  qed
  show "a \<in> set as \<Longrightarrow> on_chain m p a" using c
  proof (induction as arbitrary: p)
    case Nil
    then show ?case by simp
  next
    case (Cons b as)
    then show ?case by (auto intro: on_chain.intros)
  qed
qed

lemma in_table_iff:
  assumes inv: "table_inv s bs"
  shows "in_table s a \<longleftrightarrow> a \<in> set (concat bs)"
proof
  note len = table_invD(3) [OF inv] and ch = table_invD(5) [OF inv]
  show "in_table s a \<Longrightarrow> a \<in> set (concat bs)"
  proof -
    assume "in_table s a"
    then obtain i where i: "i < length bs" "on_chain (Mem s) (slot (Mem s) (HashTable s) i) a"
      using len by (auto simp: in_table_def)
    from ch i(1) have "chain (Mem s) (slot (Mem s) (HashTable s) i) (bs ! i)"
      by (simp add: chains_ok_def)
    from on_chain_iff [OF this] i(2) have "a \<in> set (bs ! i)" by simp
    with i(1) nth_subset_concat [of i bs] show ?thesis by blast
  qed
  show "a \<in> set (concat bs) \<Longrightarrow> in_table s a"
  proof -
    assume "a \<in> set (concat bs)"
    then obtain b where "b \<in> set bs" "a \<in> set b" by (auto simp: set_concat)
    then obtain i where i: "i < length bs" "a \<in> set (bs ! i)" by (auto simp: in_set_conv_nth)
    from ch i(1) have "chain (Mem s) (slot (Mem s) (HashTable s) i) (bs ! i)"
      by (simp add: chains_ok_def)
    from on_chain_iff [OF this] i(2) have "on_chain (Mem s) (slot (Mem s) (HashTable s) i) a"
      by simp
    with i(1) len show ?thesis by (auto simp: in_table_def)
  qed
qed

lemma Increase_inv:
  assumes inv: "table_inv s bs" and res: "IncreaseHashTableSize s = Some (Inr s')"
    and nz: "HashTable s' \<noteq> 0"
  shows "table_inv s' (regrouped s bs) \<and> HashTableSize s * 2 < 2 ^ 31 \<and>
     HashTableSize s' = HashTableSize s * 2 \<and>
     (\<forall>a \<in> set (concat bs).
        key_of (Mem s') a = key_of (Mem s) a \<and> value_of (Mem s') a = value_of (Mem s) a)"
proof -
  from Increase_cases [OF inv]
  consider (ov) "IncreaseHashTableSize s = Some (Inl SignedOverflow)"
    | (full) "concat bs \<noteq> [] \<longrightarrow> IncreaseHashTableSize s = Some (Inl NullDereference)"
        "concat bs = [] \<longrightarrow> (\<exists>s'. IncreaseHashTableSize s = Some (Inr s') \<and> HashTable s' = 0)"
    | (ok) s2 where "HashTableSize s * 2 < 2 ^ 31" "IncreaseHashTableSize s = Some (Inr s2)"
        "table_inv s2 (regrouped s bs)" "HashTableSize s2 = HashTableSize s * 2"
        "\<forall>a \<in> set (concat bs).
          key_of (Mem s2) a = key_of (Mem s) a \<and> value_of (Mem s2) a = value_of (Mem s) a"
    by blast
  then show ?thesis
  proof cases
    case ov
    with res show ?thesis by simp
  next
    case ok
    with res show ?thesis by simp
  next
    case full
    with res nz show ?thesis by (cases "concat bs = []") auto
  qed
qed

lemma find_or_add_inv:
  assumes inv: "table_inv s bs" and res: "find_or_add k s = Some (Inr (b, p, s'))"
  shows "\<exists>bs'. table_inv s' bs' \<and> p \<in> set (concat bs') \<and> key_of (Mem s') p = k \<and>
     set (concat bs') = insert p (set (concat bs)) \<and>
     (\<forall>a \<in> set (concat bs).
        key_of (Mem s') a = key_of (Mem s) a \<and> value_of (Mem s') a = value_of (Mem s) a) \<and>
     (b \<longrightarrow> p \<notin> set (concat bs) \<and> bs' = bs[bucket_of k (HashTableSize s) :=
                  bs ! bucket_of k (HashTableSize s) @ [p]])"
proof (cases "\<forall>a \<in> set (concat bs). key_of (Mem s) a \<noteq> k")
  case False
  then obtain a where a: "a \<in> set (concat bs)" "key_of (Mem s) a = k" by blast
  from find_or_add_found [OF inv a] res obtain mx where
    r: "b = False" "p = a" "s' = s\<lparr>MaxListLength := mx\<rparr>" by auto
  have "set (concat bs) = insert a (set (concat bs))" using a by auto
  with r a inv show ?thesis by (intro exI [of _ bs]) simp
next
  case True
  let ?h = "bucket_of k (HashTableSize s)"
  from LookupPointer_new [OF inv True refl refl] res
  have 1: "table_inv s' (bs[?h := bs ! ?h @ [p]])" "p \<notin> set (concat bs)"
    "key_of (Mem s') p = k"
    "\<forall>a \<in> set (concat bs).
       key_of (Mem s') a = key_of (Mem s) a \<and> value_of (Mem s') a = value_of (Mem s) a"
    by auto
  have sc: "set (concat (bs[?h := bs ! ?h @ [p]])) = insert p (set (concat bs))"
    using inv_bucket [OF inv] by (rule concat_update_snoc)
  with 1 show ?thesis by (intro exI [of _ "bs[?h := bs ! ?h @ [p]]"]) simp
qed

lemma step_inv:
  assumes inv: "table_inv s bs" and st: "step s s'"
  shows "\<exists>bs'. table_inv s' bs' \<and> set (concat bs) \<subseteq> set (concat bs') \<and>
     (\<forall>a \<in> set (concat bs). key_of (Mem s') a = key_of (Mem s) a)"
  using st
proof cases
  case (added k b p)
  from find_or_add_inv [OF inv this] show ?thesis by blast
next
  case (lookup k r)
  from LookupPointer_inv [OF inv, of k] lookup show ?thesis by auto
next
  case (store k a v)
  from find_record_cases [OF inv, of k] store have a: "a \<in> set (concat bs)" by auto
  from store_value_inv [OF inv a, of v] store show ?thesis by auto
next
  case grow
  from Increase_inv [OF inv grow] have
    i: "table_inv s' (regrouped s bs)" "HashTableSize s * 2 < 2 ^ 31"
      "\<forall>a \<in> set (concat bs). key_of (Mem s') a = key_of (Mem s) a"
    by auto
  with set_regrouped [OF inv i(2)] show ?thesis by (intro exI [of _ "regrouped s bs"]) simp
qed

section \<open>Properties of well-formed tables\<close>

lemma in_set_nonempty: "a \<in> set xs \<Longrightarrow> xs \<noteq> []"
  by auto

lemma set_eq_nonempty: "set xs = set ys \<Longrightarrow> ys \<noteq> [] \<Longrightarrow> xs \<noteq> []"
  by auto

lemma length_word_nonempty: "(of_nat (length xs) :: 32 word) \<noteq> 0 \<Longrightarrow> xs \<noteq> []"
  by auto

lemma used_slots_pos: "concat bs \<noteq> [] \<Longrightarrow> 0 < used_slots bs"
  by (induction bs) (auto simp: used_slots_def)

lemma used_slots_le: "used_slots bs \<le> length bs"
  by (simp add: used_slots_def)

lemma inv_used_nonzero:
  assumes inv: "table_inv s bs" and ne: "concat bs \<noteq> []"
  shows "NumUsedSlots s \<noteq> 0"
proof -
  have "used_slots bs < 2 ^ 32"
    using used_slots_le [of bs] table_invD(2,3) [OF inv] by simp
  then have "unat (of_nat (used_slots bs) :: 32 word) = used_slots bs"
    by (simp add: unat_of_nat)
  with used_slots_pos [OF ne] table_invD(12) [OF inv] show ?thesis
    by (auto simp flip: unat_gt_0)
qed

lemma steps_inv:
  assumes st: "step\<^sup>*\<^sup>* s s'" and inv: "table_inv s bs"
  shows "\<exists>bs'. table_inv s' bs' \<and> set (concat bs) \<subseteq> set (concat bs') \<and>
     (\<forall>a \<in> set (concat bs). key_of (Mem s') a = key_of (Mem s) a)"
  using st
proof (induction rule: rtranclp_induct)
  case base
  with inv show ?case by blast
next
  case (step y z)
  then obtain bs1 where 1: "table_inv y bs1" "set (concat bs) \<subseteq> set (concat bs1)"
    "\<forall>a \<in> set (concat bs). key_of (Mem y) a = key_of (Mem s) a" by blast
  from step_inv [OF 1(1) step.hyps(2)] obtain bs2 where
    2: "table_inv z bs2" "set (concat bs1) \<subseteq> set (concat bs2)"
    "\<forall>a \<in> set (concat bs1). key_of (Mem z) a = key_of (Mem y) a" by blast
  have "\<forall>a \<in> set (concat bs). key_of (Mem z) a = key_of (Mem s) a"
  proof
    fix a assume a: "a \<in> set (concat bs)"
    with 1(2) have "a \<in> set (concat bs1)" by blast
    with 2(3) 1(3) a show "key_of (Mem z) a = key_of (Mem s) a" by simp
  qed
  with 1(2) 2(1,2) show ?case by blast
qed

lemma grows_inv:
  assumes st: "grow_step\<^sup>*\<^sup>* s s'" and inv: "table_inv s bs" and ne: "concat bs \<noteq> []"
  shows "\<exists>bs'. table_inv s' bs' \<and> set (concat bs') = set (concat bs) \<and>
     (\<forall>a \<in> set (concat bs).
        key_of (Mem s') a = key_of (Mem s) a \<and> value_of (Mem s') a = value_of (Mem s) a)"
  using st
proof (induction rule: rtranclp_induct)
  case base
  with inv show ?case by blast
next
  case (step y z)
  then obtain bs1 where 1: "table_inv y bs1" "set (concat bs1) = set (concat bs)"
    "\<forall>a \<in> set (concat bs).
       key_of (Mem y) a = key_of (Mem s) a \<and> value_of (Mem y) a = value_of (Mem s) a" by blast
  from 1(2) ne have ne1: "concat bs1 \<noteq> []" by (rule set_eq_nonempty)
  from step.hyps(2) have g: "IncreaseHashTableSize y = Some (Inr z)" by (simp add: grow_step_def)
  from Increase_cases [OF 1(1)] g ne1 have
    2: "HashTableSize y * 2 < 2 ^ 31" "table_inv z (regrouped y bs1)"
      "\<forall>a \<in> set (concat bs1).
          key_of (Mem z) a = key_of (Mem y) a \<and> value_of (Mem z) a = value_of (Mem y) a"
    by auto
  from set_regrouped [OF 1(1) 2(1)] 1(2)
  have 3: "set (concat (regrouped y bs1)) = set (concat bs)" by simp
  have "\<forall>a \<in> set (concat bs).
        key_of (Mem z) a = key_of (Mem s) a \<and> value_of (Mem z) a = value_of (Mem s) a"
    using 1(2,3) 2(3) by simp
  with 2(2) 3 show ?case by blast
qed

text \<open>
  Every record on the chain that starts at bucket \<open>i\<close> has a key whose hash, reduced
  modulo the length, is \<open>i\<close>.
\<close>

lemma wf_bucket_placement:
  assumes inv: "table_inv s bs" and i: "i < nat (HashTableSize s)"
    and a: "on_chain (Mem s) (slot (Mem s) (HashTable s) i) a"
  shows "bucket_of (key_of (Mem s) a) (HashTableSize s) = i"
proof -
  from i table_invD(3) [OF inv] have il: "i < length bs" by simp
  with table_invD(5) [OF inv] have "chain (Mem s) (slot (Mem s) (HashTable s) i) (bs ! i)"
    by (simp add: chains_ok_def)
  from on_chain_iff [OF this] a have "a \<in> set (bs ! i)" by simp
  with table_invD(9) [OF inv] il show ?thesis by (simp add: placed_def)
qed

text \<open>
  A positive \<open>NumTotalRecords\<close> comes with a positive \<open>NumUsedSlots\<close>, also in the state
  in which \<open>LookupPointer\<close> computes the probe average.
\<close>

lemma wf_used_slots_nonzero:
  assumes inv: "table_inv s bs"
  shows "(NumTotalRecords s \<noteq> 0 \<longrightarrow> NumUsedSlots s \<noteq> 0) \<and>
         (find_or_add k s = Some (Inr (added, p, s1)) \<longrightarrow> NumUsedSlots s1 \<noteq> 0)"
proof -
  have "NumUsedSlots s \<noteq> 0" if "NumTotalRecords s \<noteq> 0"
  proof -
    from that table_invD(11) [OF inv] have "concat bs \<noteq> []"
      by (intro length_word_nonempty) simp
    from inv_used_nonzero [OF inv this] show ?thesis .
  qed
  moreover have "NumUsedSlots s1 \<noteq> 0" if "find_or_add k s = Some (Inr (added, p, s1))"
  proof -
    from find_or_add_inv [OF inv that] obtain bs1 where
      "table_inv s1 bs1" "p \<in> set (concat bs1)" by blast
    then show ?thesis by (intro inv_used_nonzero [of s1 bs1] in_set_nonempty [of p])
  qed
  ultimately show ?thesis by blast
qed

text \<open>
  \<open>LookupPointer\<close> returns, and never through the failed assertion: after a resize the
  second search finds the record that was just linked.
\<close>

lemma wf_relookup_succeeds:
  assumes inv: "table_inv s bs"
  shows "LookupPointer k s \<noteq> None \<and> LookupPointer k s \<noteq> Some (Inl AssertFailed) \<and>
         (find_or_add k s = Some (Inr (True, p, s1)) \<and>
          IncreaseHashTableSize s1 = Some (Inr s2) \<longrightarrow>
          find_again k s2 = Some (Inr (p + 8, s2)))"
proof -
  from LookupPointer_inv [OF inv, of k]
  have "LookupPointer k s \<noteq> None \<and> LookupPointer k s \<noteq> Some (Inl AssertFailed)" by auto
  moreover have "find_again k s2 = Some (Inr (p + 8, s2))"
    if f: "find_or_add k s = Some (Inr (True, p, s1))"
      and g: "IncreaseHashTableSize s1 = Some (Inr s2)"
  proof -
    from find_or_add_inv [OF inv f] obtain bs1 where
      1: "table_inv s1 bs1" "p \<in> set (concat bs1)" "key_of (Mem s1) p = k" by blast
    from 1(2) have ne1: "concat bs1 \<noteq> []" by (rule in_set_nonempty)
    from Increase_cases [OF 1(1)] g ne1 have
      2: "HashTableSize s1 * 2 < 2 ^ 31" "table_inv s2 (regrouped s1 bs1)"
        "\<forall>a \<in> set (concat bs1). key_of (Mem s2) a = key_of (Mem s1) a"
      by auto
    from set_regrouped [OF 1(1) 2(1)] 1(2) have "p \<in> set (concat (regrouped s1 bs1))" by simp
    moreover from 2(3) 1(2,3) have "key_of (Mem s2) p = k" by simp
    ultimately show ?thesis using 2(2) by (intro find_again_inv)
  qed
  ultimately show ?thesis by blast
qed

text \<open>
  Two records with the same key are the same record, and a key that has been looked up
  keeps its slot through all later operations.
\<close>

lemma wf_key_unique_and_stable:
  assumes inv: "table_inv s bs"
  shows "(in_table s a \<and> in_table s b \<and> key_of (Mem s) a = key_of (Mem s) b \<longrightarrow> a = b) \<and>
         (LookupPointer k s = Some (Inr (v, s1)) \<and> step\<^sup>*\<^sup>* s1 s2 \<longrightarrow>
            (\<exists>mx. LookupPointer k s2 = Some (Inr (v, s2\<lparr>MaxListLength := mx\<rparr>))))"
proof -
  have "a = b" if "in_table s a" "in_table s b" "key_of (Mem s) a = key_of (Mem s) b"
  proof -
    from that(1,2) in_table_iff [OF inv] have "a \<in> set (concat bs)" "b \<in> set (concat bs)"
      by simp_all
    with table_invD(10) [OF inv] that(3) show ?thesis
      by (auto simp: distinct_map dest: inj_onD)
  qed
  moreover have "\<exists>mx. LookupPointer k s2 = Some (Inr (v, s2\<lparr>MaxListLength := mx\<rparr>))"
    if l: "LookupPointer k s = Some (Inr (v, s1))" and st: "step\<^sup>*\<^sup>* s1 s2"
  proof -
    from LookupPointer_inv [OF inv, of k] l obtain c bs1 where
      1: "v = c + 8" "table_inv s1 bs1" "c \<in> set (concat bs1)" "key_of (Mem s1) c = k"
      by auto
    from steps_inv [OF st 1(2)] obtain bs2 where
      2: "table_inv s2 bs2" "set (concat bs1) \<subseteq> set (concat bs2)"
        "\<forall>a \<in> set (concat bs1). key_of (Mem s2) a = key_of (Mem s1) a" by blast
    from 1(3) 2(2) have "c \<in> set (concat bs2)" by blast
    moreover from 1(3,4) 2(3) have "key_of (Mem s2) c = k" by simp
    ultimately show ?thesis using LookupPointer_found [OF 2(1)] 1(1) by simp
  qed
  ultimately show ?thesis by blast
qed

text \<open>
  A record is still in the table after any number of calls of
  \<open>IncreaseHashTableSize\<close>, at the same address, with the same key and the same value.
\<close>

lemma wf_resize_preserves_entries:
  assumes inv: "table_inv s bs" and a: "in_table s a" and g: "grow_step\<^sup>*\<^sup>* s s'"
  shows "in_table s' a \<and> key_of (Mem s') a = key_of (Mem s) a \<and>
         value_of (Mem s') a = value_of (Mem s) a \<and>
         (\<exists>mx. LookupPointer (key_of (Mem s) a) s' =
                 Some (Inr (a + 8, s'\<lparr>MaxListLength := mx\<rparr>)))"
proof -
  from a in_table_iff [OF inv] have ab: "a \<in> set (concat bs)" by simp
  then have ne: "concat bs \<noteq> []" by (rule in_set_nonempty)
  from grows_inv [OF g inv ne] obtain bs' where
    1: "table_inv s' bs'" "set (concat bs') = set (concat bs)"
      "\<forall>a \<in> set (concat bs).
        key_of (Mem s') a = key_of (Mem s) a \<and> value_of (Mem s') a = value_of (Mem s) a"
    by blast
  from 1(2) ab have ab': "a \<in> set (concat bs')" by simp
  with in_table_iff [OF 1(1)] have "in_table s' a" by simp
  moreover from 1(3) ab have kv: "key_of (Mem s') a = key_of (Mem s) a"
    "value_of (Mem s') a = value_of (Mem s) a" by simp_all
  moreover from LookupPointer_found [OF 1(1) ab' kv(1)]
  have "\<exists>mx. LookupPointer (key_of (Mem s) a) s' =
                 Some (Inr (a + 8, s'\<lparr>MaxListLength := mx\<rparr>))" .
  ultimately show ?thesis by blast
qed

section \<open>The single-precision test is exact for tables of moderate size\<close>

lemma bit_length_le_iff: "bit_length n \<le> m \<longleftrightarrow> n < 2 ^ m"
proof (induction m arbitrary: n)
  case 0
  show ?case by (subst bit_length.simps) simp
next
  case (Suc m)
  show ?case
  proof (cases "n = 0")
    case True
    then show ?thesis by (subst bit_length.simps) simp
  next
    case False
    then have "bit_length n = Suc (bit_length (n div 2))" by (subst bit_length.simps) simp
    moreover have "n div 2 < 2 ^ m \<longleftrightarrow> n < 2 * 2 ^ m" by (simp add: div_less_iff_less_mult mult.commute)
    ultimately show ?thesis using Suc [of "n div 2"] by simp
  qed
qed

lemma float_of_nat_exact: "n < 2 ^ 24 \<Longrightarrow> float_of_nat n = n"
proof -
  assume "n < 2 ^ 24"
  then have "bit_length n \<le> 24" by (simp only: bit_length_le_iff)
  then have "bit_length n - 24 = 0" by simp
  then show ?thesis by (simp add: float_of_nat_def round24_def Let_def)
qed

lemma round24_one_div:
  assumes N: "N < 2 ^ (24 + j)" and j: "j \<le> 24" and lo: "a * 2 ^ 24 \<le> N"
    and hi: "2 * N + 2 ^ j < 2 * ((a + 1) * 2 ^ 24)"
  shows "round24 N 1 div 2 ^ 24 = a"
proof -
  define k where "k = bit_length N - 24"
  define q where "q = N div 2 ^ k"
  define low where "low = N mod 2 ^ k"
  define r where "r = round24 N 1"
  have "bit_length N \<le> 24 + j" using N by (simp only: bit_length_le_iff)
  then have kj: "k \<le> j" by (simp add: k_def)
  have N_eq: "N = q * 2 ^ k + low"
    using div_mult_mod_eq [of N "2 ^ k"] by (simp add: q_def low_def)
  have low_lt: "low < 2 ^ k" by (simp add: low_def)
  have r: "r = (if 2 * low > 2 ^ k \<or> (2 * low = 2 ^ k \<and> odd q)
                then (q + 1) * 2 ^ k else q * 2 ^ k)"
    by (simp add: r_def round24_def Let_def k_def q_def low_def)
  have pk: "(2::nat) ^ k \<le> 2 ^ j" using kj by (simp add: power_increasing)
  have "(2::nat) ^ 24 = 2 ^ (24 - k) * 2 ^ k" using kj j by (simp flip: power_add)
  then have dv: "a * 2 ^ 24 = (a * 2 ^ (24 - k)) * 2 ^ k" by (simp only: mult.assoc)
  have "(a * 2 ^ (24 - k)) * 2 ^ k \<le> N" using lo by (simp only: dv)
  then have "a * 2 ^ (24 - k) \<le> q" unfolding q_def by (simp add: less_eq_div_iff_mult_less_eq)
  then have "(a * 2 ^ (24 - k)) * 2 ^ k \<le> q * 2 ^ k" by (rule mult_le_mono1)
  then have ge: "a * 2 ^ 24 \<le> q * 2 ^ k" by (simp only: dv)
  have qr: "q * 2 ^ k \<le> r" by (simp add: r)
  have up: "2 * r \<le> 2 * N + 2 ^ k"
  proof (cases "2 * low > 2 ^ k \<or> (2 * low = 2 ^ k \<and> odd q)")
    case True
    then have "r = q * 2 ^ k + 2 ^ k" and "2 ^ k \<le> 2 * low" by (auto simp: r)
    with N_eq show ?thesis by linarith
  next
    case False
    then have "r = q * 2 ^ k" by (auto simp: r)
    with N_eq show ?thesis by linarith
  qed
  have "a * 2 ^ 24 \<le> r" using ge qr by linarith
  moreover have "r < (a + 1) * 2 ^ 24" using up pk hi by linarith
  ultimately have "r div 2 ^ 24 = a" by (intro div_nat_eqI) (simp_all add: mult.commute)
  then show ?thesis by (simp add: r_def)
qed

lemma slots_limit_exact:
  assumes "0 \<le> n" "n \<le> 5242880"
  shows "slots_limit n = of_nat (nat (4 * n div 5))"
proof -
  define m where "m = nat n"
  define a where "a = 4 * m div 5"
  have m: "m \<le> 5242880" using assms by (simp add: m_def)
  have a1: "5 * a \<le> 4 * m" and a2: "4 * m < 5 * a + 5" unfolding a_def by presburger+
  have fl: "float_of_nat m = m" using m by (intro float_of_nat_exact) simp
  have "round24 (m * 13421773) 1 div 2 ^ 24 = a"
  proof (cases "m = 5242880")
    case True
    then have "a = 4194304" by (simp add: a_def)
    with True show ?thesis by (intro round24_one_div [where j = 23]) simp_all
  next
    case False
    with m have m': "m < 5242880" by simp
    show ?thesis
    proof (rule round24_one_div [where j = 22])
      show "m * 13421773 < 2 ^ (24 + 22)" using m' by simp
      show "(22::nat) \<le> 24" by simp
      show "a * 2 ^ 24 \<le> m * 13421773" using a1 by simp
      show "2 * (m * 13421773) + 2 ^ 22 < 2 * ((a + 1) * 2 ^ 24)" using a2 m' by simp
    qed
  qed
  moreover have "nat (4 * n div 5) = a" using assms(1) unfolding a_def m_def
    by (simp add: nat_div_distrib nat_mult_distrib)
  ultimately show ?thesis by (simp add: slots_limit_def fl [unfolded m_def] m_def)
qed

lemma round24_unfold:
  assumes "Q = N div D" "R = N mod D" "k = bit_length Q - 24" "q = Q div 2 ^ k"
    "low = (Q mod 2 ^ k) * D + R"
  shows "round24 N D = (if 2 * low > 2 ^ k * D \<or> (2 * low = 2 ^ k * D \<and> odd q)
                        then (q + 1) * 2 ^ k else q * 2 ^ k)"
  using assms by (simp add: round24_def Let_def)

lemma bit_length_59: "2 ^ 58 \<le> Q \<Longrightarrow> Q < 2 ^ 59 \<Longrightarrow> bit_length Q = 59"
proof -
  assume "2 ^ 58 \<le> Q" "Q < 2 ^ 59"
  then have "\<not> bit_length Q \<le> 58" "bit_length Q \<le> 59" by (simp_all add: bit_length_le_iff)
  then show ?thesis by simp
qed

lemma round24_le_5:
  assumes D: "0 < D" and le: "N \<le> 5 * 2 ^ 56 * D"
  shows "round24 N D \<le> 5 * 2 ^ 56"
proof -
  define Q where "Q = N div D"
  define R where "R = N mod D"
  define k where "k = bit_length Q - 24"
  define q where "q = Q div 2 ^ k"
  define Qm where "Qm = Q mod 2 ^ k"
  define low where "low = Qm * D + R"
  note r = round24_unfold [OF Q_def R_def k_def q_def low_def [unfolded Qm_def]]
  have N_eq: "N = Q * D + R" by (simp add: Q_def R_def)
  have Q_eq: "Q = q * 2 ^ k + Qm" using div_mult_mod_eq [of Q "2 ^ k"] by (simp add: q_def Qm_def)
  have "N div D \<le> (5 * 2 ^ 56 * D) div D" using le by (rule div_le_mono)
  then have QM: "Q \<le> 5 * 2 ^ 56" using D by (simp add: Q_def)
  have rq: "round24 N D \<le> (q + 1) * 2 ^ k" by (simp add: r)
  show ?thesis
  proof (cases "Q < 2 ^ 58")
    case True
    then have "bit_length Q \<le> 58" by (simp only: bit_length_le_iff)
    then have k34: "k \<le> 34" by (simp add: k_def)
    have "bit_length Q \<le> 24 + k" by (simp add: k_def)
    then have "Q < 2 ^ (24 + k)" by (simp only: bit_length_le_iff)
    then have "Q < 2 ^ 24 * 2 ^ k" by (simp only: power_add)
    then have "q < 2 ^ 24" unfolding q_def by (simp add: div_less_iff_less_mult)
    then have "q + 1 \<le> 2 ^ 24" by simp
    then have "(q + 1) * 2 ^ k \<le> 2 ^ 24 * 2 ^ k" by (rule mult_le_mono1)
    also have "\<dots> \<le> 2 ^ 24 * 2 ^ 34" using k34 by (intro mult_le_mono2 power_increasing) simp_all
    finally have "(q + 1) * 2 ^ k \<le> 2 ^ 58" by simp
    with rq show ?thesis by simp
  next
    case False
    with QM have "bit_length Q = 59" by (intro bit_length_59) simp_all
    then have k: "k = 35" by (simp add: k_def)
    show ?thesis
    proof (cases "q + 1 \<le> 5 * 2 ^ 21")
      case True
      then have "(q + 1) * 2 ^ k \<le> (5 * 2 ^ 21) * 2 ^ k" by (rule mult_le_mono1)
      with rq k show ?thesis by simp
    next
      case False
      then have "(5 * 2 ^ 21) * 2 ^ k \<le> q * 2 ^ k" by (intro mult_le_mono1) simp
      then have qM: "5 * 2 ^ 56 \<le> q * 2 ^ k" using k by simp
      with Q_eq QM have Qm0: "Qm = 0" and QeqM: "Q = 5 * 2 ^ 56" and qeq: "q * 2 ^ k = 5 * 2 ^ 56"
        by linarith+
      from N_eq QeqM le have "R = 0" by simp
      with Qm0 have "low = 0" by (simp add: low_def)
      with D have "round24 N D = q * 2 ^ k" by (simp add: r)
      with qeq show ?thesis by simp
    qed
  qed
qed

lemma round24_gt_5:
  assumes D: "0 < D" and gt: "(5 * 2 ^ 56 + 2 ^ 34) * D < N"
  shows "5 * 2 ^ 56 < round24 N D"
proof -
  define Q where "Q = N div D"
  define R where "R = N mod D"
  define k where "k = bit_length Q - 24"
  define q where "q = Q div 2 ^ k"
  define Qm where "Qm = Q mod 2 ^ k"
  define low where "low = Qm * D + R"
  note r = round24_unfold [OF Q_def R_def k_def q_def low_def [unfolded Qm_def]]
  have N_eq: "N = Q * D + R" by (simp add: Q_def R_def)
  have Q_eq: "Q = q * 2 ^ k + Qm" using div_mult_mod_eq [of Q "2 ^ k"] by (simp add: q_def Qm_def)
  have "(5 * 2 ^ 56 + 2 ^ 34) * D \<le> N" using gt by simp
  then have QM: "5 * 2 ^ 56 + 2 ^ 34 \<le> Q" unfolding Q_def using D
    by (simp only: less_eq_div_iff_mult_less_eq)
  have qr: "q * 2 ^ k \<le> round24 N D" by (simp add: r)
  show ?thesis
  proof (cases "Q < 2 ^ 59")
    case False
    then have "\<not> bit_length Q \<le> 59" by (simp add: bit_length_le_iff)
    then have bl: "bit_length Q = 24 + k" and k36: "36 \<le> k" by (simp_all add: k_def)
    have "\<not> bit_length Q \<le> 23 + k" using bl by simp
    then have "\<not> Q < 2 ^ (23 + k)" by (simp add: bit_length_le_iff)
    then have "2 ^ 23 * 2 ^ k \<le> Q" by (simp add: power_add)
    then have "2 ^ 23 \<le> q" unfolding q_def by (simp only: less_eq_div_iff_mult_less_eq zero_less_power zero_less_numeral)
    then have A: "2 ^ 23 * 2 ^ k \<le> q * 2 ^ k" by (rule mult_le_mono1)
    have B: "(2::nat) ^ 23 * 2 ^ 36 \<le> 2 ^ 23 * 2 ^ k"
      using k36 by (intro mult_le_mono2 power_increasing) simp_all
    from order_trans [OF B A] have "2 ^ 59 \<le> q * 2 ^ k" by simp
    with qr show ?thesis by simp
  next
    case True
    with QM have "bit_length Q = 59" by (intro bit_length_59) simp_all
    then have k: "k = 35" by (simp add: k_def)
    have "(5 * 2 ^ 21) * 2 ^ k \<le> Q" using QM k by simp
    then have q5: "5 * 2 ^ 21 \<le> q" unfolding q_def
      by (simp only: less_eq_div_iff_mult_less_eq zero_less_power zero_less_numeral)
    show ?thesis
    proof (cases "q = 5 * 2 ^ 21")
      case False
      with q5 have "5 * 2 ^ 21 + 1 \<le> q" by simp
      then have "(5 * 2 ^ 21 + 1) * 2 ^ k \<le> q * 2 ^ k" by (rule mult_le_mono1)
      with qr k show ?thesis by simp
    next
      case True
      with Q_eq k have "Q = 5 * 2 ^ 56 + Qm" by simp
      with N_eq have "N = 5 * 2 ^ 56 * D + low" by (simp add: low_def algebra_simps)
      with gt have "2 ^ 34 * D < low" by (simp add: algebra_simps)
      then have "2 ^ k * D < 2 * low" using k by simp
      then have "round24 N D = (q + 1) * 2 ^ k" by (simp add: r)
      with True k show ?thesis by simp
    qed
  qed
qed

lemma probe_average_exact:
  assumes t: "unat records < 2 ^ 24" and u: "unat used < 2 ^ 24" and nz: "used \<noteq> 0"
  shows "probe_average_gt5 records used \<longleftrightarrow> 5 * unat used < unat records"
proof -
  define T where "T = unat records"
  define U where "U = unat used"
  have U0: "0 < U" using nz by (simp add: U_def unat_gt_0)
  have fT: "float_of_nat T = T" and fU: "float_of_nat U = U"
    using t u by (simp_all add: T_def U_def float_of_nat_exact)
  have p: "probe_average_gt5 records used \<longleftrightarrow> 5 * 2 ^ 56 < round24 (T * 2 ^ 56) U"
    using U0 by (simp add: probe_average_gt5_def Let_def fT [unfolded T_def] fU [unfolded U_def]
        T_def U_def)
  show ?thesis
  proof (cases "5 * U < T")
    case True
    with t have "U < 2 ^ 22" by (simp add: T_def)
    then have "2 ^ 34 * U < 2 ^ 34 * 2 ^ 22" by (intro mult_strict_left_mono) simp_all
    moreover from True have "(5 * U + 1) * 2 ^ 56 \<le> T * 2 ^ 56" by (intro mult_le_mono1) simp
    ultimately have "(5 * 2 ^ 56 + 2 ^ 34) * U < T * 2 ^ 56" by (simp add: algebra_simps)
    from round24_gt_5 [OF U0 this] True show ?thesis by (simp add: p T_def U_def)
  next
    case False
    then have "T * 2 ^ 56 \<le> (5 * U) * 2 ^ 56" by (intro mult_le_mono1) simp
    then have "T * 2 ^ 56 \<le> 5 * 2 ^ 56 * U" by (simp add: algebra_simps)
    from round24_le_5 [OF U0 this] False show ?thesis by (simp add: p T_def U_def)
  qed
qed

lemma resize_test_exact:
  assumes n: "0 \<le> n" "n \<le> 5242880"
    and t: "unat records < 2 ^ 24" and u: "unat used < 2 ^ 24" and nz: "used \<noteq> 0"
  shows "resize_test n used records longest \<longleftrightarrow> resize_condition n used records longest"
proof -
  have U0: "0 < unat used" using nz by (simp add: unat_gt_0)
  have "nat (4 * n div 5) < 2 ^ 32" using n by simp
  then have "unat (of_nat (nat (4 * n div 5)) :: 32 word) = nat (4 * n div 5)"
    by (simp add: unat_of_nat)
  then have "slots_limit n < used \<longleftrightarrow> nat (4 * n div 5) < unat used"
    by (simp add: slots_limit_exact [OF n] word_less_nat_alt)
  also have "\<dots> \<longleftrightarrow> 4 * n < 5 * int (unat used)" using n(1) by linarith
  also have "\<dots> \<longleftrightarrow> 8 / 10 * real_of_int n < real (unat used)"
  proof -
    have "4 * n < 5 * int (unat used) \<longleftrightarrow> real_of_int (4 * n) < real_of_int (5 * int (unat used))"
      by (simp only: of_int_less_iff)
    then show ?thesis by (simp add: mult.commute)
  qed
  finally have 1: "slots_limit n < used \<longleftrightarrow> 8 / 10 * real_of_int n < real (unat used)" .
  have "5 * unat used < unat records \<longleftrightarrow> real (5 * unat used) < real (unat records)"
    by (simp only: of_nat_less_iff)
  also have "\<dots> \<longleftrightarrow> 5 < real (unat records) / real (unat used)"
  proof -
    have "0 < real (unat used)" using U0 by (simp only: of_nat_0_less_iff)
    then show ?thesis by (simp add: pos_less_divide_eq)
  qed
  finally have 2: "probe_average_gt5 records used \<longleftrightarrow> 5 < real (unat records) / real (unat used)"
    by (simp add: probe_average_exact [OF t u nz])
  have 3: "10 < longest \<longleftrightarrow> 10 < unat longest" by (simp add: word_less_nat_alt)
  show ?thesis by (simp only: resize_test_def resize_condition_def 1 2 3)
qed

section \<open>The resize test in a large table\<close>

text \<open>
  Claim C3 fails in a table of \<open>2 ^ 24\<close> buckets. The comment at line 268 asks whether
  more than 80% of the slots are used, but the constant \<open>0.8f\<close> is \<open>13421773 / 2 ^ 24\<close>,
  slightly more than 0.8, so that the limit computed for 16777216 buckets is 13421773,
  while 80% of the length is 13421772.8. With 13421773 buckets used by one record each,
  the used-slot count exceeds 80% of the length, the condition of the claim holds, and
  the test of the code fails: no resize is triggered.
\<close>

theorem resize_test_misses_80_percent:
  "resize_condition 16777216 13421773 13421773 1 \<and> \<not> resize_test 16777216 13421773 13421773 1"
proof -
  have c: "resize_condition 16777216 13421773 13421773 1" by (simp add: resize_condition_def)
  have "bit_length 16777216 = 25" by (simp add: bit_length.simps)
  then have f: "float_of_nat 16777216 = 16777216"
    by (simp add: float_of_nat_def round24_def Let_def)
  have "bit_length 225179984723968 = 48" by (simp add: bit_length.simps)
  then have "round24 225179984723968 1 = 225179984723968" by (simp add: round24_def Let_def)
  with f have l: "slots_limit 16777216 = 13421773" by (simp add: slots_limit_def)
  have p: "\<not> probe_average_gt5 13421773 13421773"
    by (subst probe_average_exact) simp_all
  from c l p show ?thesis by (simp add: resize_test_def)
qed

section \<open>Tables built with one or two buckets\<close>

lemma probe_average_zero:
  "unat records < 2 ^ 24 \<Longrightarrow> probe_average_gt5 records 0 \<longleftrightarrow> records \<noteq> 0"
  by (simp add: probe_average_gt5_def float_of_nat_exact Let_def unat_gt_0)

lemmas run_simps = AllocateBytes_def LookupPointer_def find_or_add_def add_record_def
  find_again_def find_record_def
  bucket_of_def slot_def key_of_def Next_of_def value_of_def walk_chain.simps find_chain.simps
  walk_to_tail.simps migrate_chain.simps migrate_buckets.simps IncreaseHashTableSize_def
  allocate_record_def AllocateFromOldHashTable_def store_value_def Let_def
  resize_needed_def resize_test_def slots_limit_exact probe_average_exact probe_average_zero

lemma hash_values:
  "HashPointer 1048576 = 2403509452"
  "HashPointer 1048584 = 927355165"
  "HashPointer 0 = 1249414061"
  "HashPointer 1048888 = 3889173978"
  "HashPointer 1048976 = 536996508"
  "HashPointer 1048664 = 1882198903"
  "HashPointer 1048952 = 3526568888"
  "HashPointer 1048752 = 3040441346"
  "HashPointer 1048920 = 3591131698"
  "HashPointer 1048608 = 2563429668"
  "HashPointer 1048688 = 1918073049"
  "HashPointer 4168 = 3079851268"
  "HashPointer 12520 = 4254124548"
  "HashPointer 20904 = 1576322002"
  "HashPointer 21832 = 402938026"
  "HashPointer 34744 = 971174332"
  by (simp_all add: HashPointer_def Let_def cong: let_weak_cong)

lemma tiny1_eval: "tiny1 = \<lparr>HashAllocator = Some \<lparr>arena_next = 4104, arena_end = 1048576\<rparr>,
        HashTableSize = 1, HashTable = 4096, OldHashTable = 0,
        OldHashTableFreeRemaining = 0, NumUsedSlots = 0, MaxListLength = 0,
        NumTotalRecords = 0, Mem = \<lambda>_. 0\<rparr>"
  by (simp add: tiny1_def CHash_ctor_def storage0_def arena0_def AllocateBytes_def Let_def
      split del: if_split cong: let_weak_cong)

lemma tiny2_eval: "tiny2 = \<lparr>HashAllocator = Some \<lparr>arena_next = 4112, arena_end = 1048576\<rparr>,
        HashTableSize = 2, HashTable = 4096, OldHashTable = 0,
        OldHashTableFreeRemaining = 0, NumUsedSlots = 0, MaxListLength = 0,
        NumTotalRecords = 0, Mem = \<lambda>_. 0\<rparr>"
  by (simp add: tiny2_def CHash_ctor_def storage0_def arena0_def AllocateBytes_def Let_def
      split del: if_split cong: let_weak_cong)

text \<open>
  Claim C1 fails in a table built with one bucket. The first lookup of the key 1048576
  puts its record at 4104, grows the table to two buckets and returns the slot 4112, where
  the caller stores 43690. The array that was retired has 8 bytes, fewer than the 24 of a
  record: \<open>AllocateFromOldHashTable\<close> subtracts 24 from 8 in an unsigned variable and keeps
  the cursor. The lookup of the key 1048584 therefore takes its record at 4096; the
  \<open>value\<close> and \<open>Next\<close> fields of that record are the cells 4104 and 4112, the key and the
  value of the first record, and both are overwritten. The table grows to four buckets.
  A further lookup of the key 1048576 does not find the key: it returns the slot 4136 of
  a new record, which holds 0, and the cell 4112 holds 0 as well.
\<close>

theorem lost_value_after_resize:
  "LookupPointer 1048576 tiny1 = Some (Inr (4112, tiny1_one)) \<and>
   put_all [(1048576, 43690), (1048584, 48059)] tiny1 = Some (Inr tiny1_two) \<and>
   HashTableSize tiny1_one = 2 \<and> HashTableSize tiny1_two = 4 \<and>
   LookupPointer 1048576 tiny1_two = Some (Inr (4136, tiny1_three)) \<and>
   Mem tiny1_three 4136 = 0 \<and> Mem tiny1_three 4112 = 0"
proof -
  have "LookupPointer 1048576 tiny1 = Some (Inr (4112, tiny1_one))"
    by (simp add: tiny1_eval tiny1_one_def run_simps hash_values
        split del: if_split cong: let_weak_cong) (simp add: fun_eq_iff)
  moreover have "put_all [(1048576, 43690), (1048584, 48059)] tiny1 = Some (Inr tiny1_two)"
    by (simp add: tiny1_eval tiny1_two_def run_simps hash_values
        split del: if_split cong: let_weak_cong) (simp add: fun_eq_iff)
  moreover have "LookupPointer 1048576 tiny1_two = Some (Inr (4136, tiny1_three))"
    by (simp add: tiny1_two_def tiny1_three_def run_simps hash_values
        split del: if_split cong: let_weak_cong) (simp add: fun_eq_iff)
  ultimately show ?thesis by (simp add: tiny1_one_def tiny1_two_def tiny1_three_def)
qed

text \<open>
  Claim C2 fails in a table built with one bucket, for the same reason: the record that
  the underflowed cursor places at 4096 overwrites the key of the record at 4104. The
  key 1048576 gets the slot 4112 at its first lookup and the slot 4136, of a second
  record, at the next, and \<open>NumTotalRecords\<close> is 3 after the lookups of two keys.
\<close>

theorem same_key_second_record:
  "lookups [1048576, 1048584, 1048576] tiny1 = Some (Inr ([4112, 4104, 4136], tiny1_again)) \<and>
   NumTotalRecords tiny1_again = 3"
proof -
  have "lookups [1048576, 1048584, 1048576] tiny1 = Some (Inr ([4112, 4104, 4136], tiny1_again))"
    by (simp add: tiny1_eval tiny1_again_def run_simps hash_values
        split del: if_split cong: let_weak_cong) (simp add: fun_eq_iff)
  then show ?thesis by (simp add: tiny1_again_def)
qed

text \<open>
  Claim C6 fails in a table built with one bucket. After the lookups of the keys 1048888
  and 1048976 the table has two buckets; the record at 4104 is the head of the chain of
  bucket 0, its key has been overwritten with 0 by the record that the underflowed
  cursor placed at 4096, and the hash of 0 selects bucket 1.
\<close>

theorem record_in_foreign_bucket:
  "lookups [1048888, 1048976] tiny1 = Some (Inr ([4112, 4104], tiny1_misplaced)) \<and>
   HashTableSize tiny1_misplaced = 2 \<and>
   on_chain (Mem tiny1_misplaced) (slot (Mem tiny1_misplaced) (HashTable tiny1_misplaced) 0) 4104 \<and>
   key_of (Mem tiny1_misplaced) 4104 = 0 \<and>
   bucket_of (key_of (Mem tiny1_misplaced) 4104) (HashTableSize tiny1_misplaced) = 1"
proof -
  have "lookups [1048888, 1048976] tiny1 = Some (Inr ([4112, 4104], tiny1_misplaced))"
    by (simp add: tiny1_eval tiny1_misplaced_def run_simps hash_values
        split del: if_split cong: let_weak_cong) (simp add: fun_eq_iff)
  moreover have "slot (Mem tiny1_misplaced) (HashTable tiny1_misplaced) 0 = 4104"
    by (simp add: tiny1_misplaced_def slot_def)
  then have "on_chain (Mem tiny1_misplaced)
      (slot (Mem tiny1_misplaced) (HashTable tiny1_misplaced) 0) 4104"
    by (simp add: on_chain.here)
  moreover have "key_of (Mem tiny1_misplaced) 4104 = 0"
    by (simp add: tiny1_misplaced_def key_of_def)
  moreover have "bucket_of 0 2 = 1" by (simp add: bucket_of_def hash_values)
  ultimately show ?thesis by (simp add: tiny1_misplaced_def)
qed

text \<open>
  Claim C8 fails in a table built with two buckets. After five lookups the table has
  four buckets at 4160 and the underflowed cursor stands at 4168, the cell of bucket 1.
  The lookup of the key 1048688 takes its record there; bucket 1 is empty, and linking
  the record stores its address in the cell that holds its key. The statistics ask for a
  resize, the migration files the record under the key 4168, and the search that follows
  does not find the key 1048688: the call ends in the failed assertion.
\<close>

theorem relookup_assertion_fails:
  "lookups [1048664, 1048952, 1048752, 1048920, 1048608] tiny2 =
     Some (Inr ([4120, 4144, 4104, 4128, 4152], tiny2_five)) \<and>
   LookupPointer 1048688 tiny2_five = Some (Inl AssertFailed)"
proof -
  have "lookups [1048664, 1048952, 1048752, 1048920, 1048608] tiny2 =
     Some (Inr ([4120, 4144, 4104, 4128, 4152], tiny2_five))"
    by (simp add: tiny2_eval tiny2_five_def run_simps hash_values
        split del: if_split cong: let_weak_cong) (simp add: fun_eq_iff)
  moreover have "LookupPointer 1048688 tiny2_five = Some (Inl AssertFailed)"
    by (simp add: tiny2_five_def run_simps hash_values
        split del: if_split cong: let_weak_cong)
  ultimately show ?thesis by simp
qed

text \<open>
  Claim C10 fails in a table built with one bucket. The lookup of the key 34744 is the
  fourth; its record is taken by the underflowed cursor at 4144, where the allocator
  then places the new bucket array, so that the migration finds the key 34744 in the
  cell of bucket 0 and links the one record it moves behind it. The call returns with
  \<open>NumTotalRecords = 1\<close> and \<open>NumUsedSlots = 0\<close>.
\<close>

theorem records_without_used_slot:
  "lookups [12520, 20904, 21832, 34744] tiny1 =
     Some (Inr ([4112, 4104, 4128, 4152], tiny1_unused)) \<and>
   NumTotalRecords tiny1_unused = 1 \<and> NumUsedSlots tiny1_unused = 0"
proof -
  have "lookups [12520, 20904, 21832, 34744] tiny1 =
     Some (Inr ([4112, 4104, 4128, 4152], tiny1_unused))"
    by (simp add: tiny1_eval tiny1_unused_def run_simps hash_values
        split del: if_split cong: let_weak_cong) (simp add: fun_eq_iff)
  then show ?thesis by (simp add: tiny1_unused_def)
qed

section \<open>Snapshot export\<close>

declare count_buckets.simps [simp del]

declare copy_buckets.simps [simp del]

text \<open>Without records, or without a copy allocator, the result is empty in both modes.\<close>

lemma CopyHashToArray_empty:
  "InCopyAllocator = None \<or> NumTotalRecords s = 0 \<Longrightarrow>
   CopyHashToArray G C InCopyAllocator deep s = Some (Inr (0, 0, InCopyAllocator, Mem s))"
  by (auto simp: CopyHashToArray_def split: option.splits)

text \<open>
  Claim C9 fails in a table built with one bucket. The keys 1048576 and 1048584 are
  looked up and their slots are given the values 43690 and 48059. The table then holds
  two records, but the slot 4112 of the first was overwritten with 0 when the underflowed
  cursor placed the second record at 4096. With a copy allocator present, in either
  mode, \<open>CopyHashToArray\<close> reaches the record at 4104 on the chain of bucket 1 and calls
  \<open>GetNumRecordsToCopy\<close> through its null \<open>value\<close>: it returns no array.
\<close>

theorem snapshot_of_overwritten_value:
  "put_all [(1048576, 43690), (1048584, 48059)] tiny1 = Some (Inr tiny1_two) \<and>
   NumTotalRecords tiny1_two = 2 \<and>
   slot (Mem tiny1_two) (HashTable tiny1_two) 1 = 4104 \<and> value_of (Mem tiny1_two) 4104 = 0 \<and>
   CopyHashToArray one_record_each copy_is_value (Some copy_arena) False tiny1_two =
     Some (Inl NullDereference) \<and>
   CopyHashToArray one_record_each copy_is_value (Some copy_arena) True tiny1_two =
     Some (Inl NullDereference)"
proof -
  have "put_all [(1048576, 43690), (1048584, 48059)] tiny1 = Some (Inr tiny1_two)"
    by (simp add: tiny1_eval tiny1_two_def run_simps hash_values
        split del: if_split cong: let_weak_cong) (simp add: fun_eq_iff)
  moreover have "CopyHashToArray one_record_each copy_is_value (Some copy_arena) deep tiny1_two =
     Some (Inl NullDereference)" for deep
    by (simp add: CopyHashToArray_def tiny1_two_def count_buckets.simps count_chain.simps
        slot_def value_of_def Next_of_def split del: if_split cong: let_weak_cong)
  ultimately show ?thesis by (simp add: tiny1_two_def slot_def value_of_def)
qed

section \<open>Seven keys without collisions\<close>

lemma CHash_ctor_room:
  assumes pos: "0 < arena_next al" and top: "arena_end al < 2 ^ 64"
    and zero: "\<forall>x \<ge> arena_next al. Mem st x = 0"
    and cur: "OldHashTable st = 0"
    and n: "3 \<le> n" "n < 2 ^ 31"
    and room: "arena_next al + 8 * nat n + 7 + R \<le> arena_end al"
  shows "table_inv (CHash_ctor st (Some al) n) (replicate (nat n) [])"
    and "R \<le> room (CHash_ctor st (Some al) n)"
    and "HashTableSize (CHash_ctor st (Some al) n) = n"
    and "MaxListLength (CHash_ctor st (Some al) n) = 0"
proof -
  have sz: "nat (n * 8) = 8 * nat n" using n by simp
  have szm: "(n * 8) mod 2 ^ 64 = n * 8" using n by simp
  have p8: "0 < 8 * nat n" using n by simp
  from AllocateBytes_cases [OF pos top p8] room
  obtain p where p: "AllocateBytes (8 * nat n) 8 al = (of_nat p, al\<lparr>arena_next := p + 8 * nat n\<rparr>)"
      "p < arena_next al + 8" "(of_nat p :: ptr) \<noteq> 0"
    by auto
  have n0: "n \<noteq> 0" using n by simp
  have H: "HashTable (CHash_ctor st (Some al) n) = of_nat p"
    and A: "HashAllocator (CHash_ctor st (Some al) n) = Some (al\<lparr>arena_next := p + 8 * nat n\<rparr>)"
    using p(1) n0 szm by (simp_all add: CHash_ctor_def sz)
  have le: "arena_next al \<le> arena_end al" using room by simp
  from H p(3) have "HashTable (CHash_ctor st (Some al) n) \<noteq> 0" by simp
  from CHash_ctor_inv [OF pos le top zero cur n this]
  show "table_inv (CHash_ctor st (Some al) n) (replicate (nat n) [])" .
  show "R \<le> room (CHash_ctor st (Some al) n)" using room p(2) by (simp add: room_def A)
  show "HashTableSize (CHash_ctor st (Some al) n) = n"
    and "MaxListLength (CHash_ctor st (Some al) n) = 0"
    by (simp_all add: CHash_ctor_def Let_def split: prod.splits)
qed

lemma length_concat_singletons:
  "\<forall>b \<in> set bs. length b \<le> 1 \<Longrightarrow> length (concat bs) = used_slots bs"
proof (induction bs)
  case Nil
  then show ?case by (simp add: used_slots_def)
next
  case (Cons b bs)
  then have "length b \<le> 1" by simp
  then have "length b = (if b = [] then 0 else 1)" by (cases b) auto
  with Cons show ?case by (simp add: used_slots_def)
qed

lemma used_slots_rehash_inj:
  "distinct as \<Longrightarrow> inj_on h (set as) \<Longrightarrow> \<forall>a \<in> set as. h a < length nb \<Longrightarrow>
   \<forall>a \<in> set as. nb ! h a = [] \<Longrightarrow>
   used_slots (rehash_into h as nb) = used_slots nb + length as"
proof (induction as arbitrary: nb)
  case Nil
  then show ?case by simp
next
  case (Cons a as)
  let ?nb = "nb[h a := nb ! h a @ [a]]"
  have ha: "h a < length nb" and e: "nb ! h a = []" using Cons.prems by simp_all
  have u: "used_slots ?nb = Suc (used_slots nb)"
    using used_slots_update_snoc [OF ha, of a] e by simp
  have "\<forall>b \<in> set as. ?nb ! h b = []"
  proof
    fix b assume b: "b \<in> set as"
    with Cons.prems(1) have "b \<noteq> a" by auto
    with Cons.prems(2) b have "h b \<noteq> h a" by (auto simp: inj_on_def)
    with Cons.prems(4) b show "?nb ! h b = []" by simp
  qed
  moreover have "inj_on h (set as)" using Cons.prems(2) by (simp add: inj_on_def)
  ultimately have "used_slots (rehash_into h as ?nb) = used_slots ?nb + length as"
    using Cons.prems(1,3) by (intro Cons.IH) simp_all
  with u show ?case by simp
qed

lemma bucket_of_halve:
  assumes "0 < n" "n * 2 < 2 ^ 31"
  shows "bucket_of k n = bucket_of k (n * 2) mod nat n"
proof -
  have 1: "n mod 2 ^ 32 = n" "(n * 2) mod 2 ^ 32 = n * 2" using assms by simp_all
  have "nat (n * 2) = nat n * 2" using assms by (simp add: nat_mult_distrib)
  then have "nat n dvd nat (n * 2)" by simp
  then show ?thesis using 1 by (simp add: bucket_of_def mod_mod_cancel)
qed

lemma insert_empty_bucket:
  assumes inv: "table_inv s bs" and h: "h = bucket_of k (HashTableSize s)"
    and emp: "bs ! h = []" and room: "31 \<le> room s"
  shows "\<exists>p s1. find_or_add k s = Some (Inr (True, p, s1)) \<and> table_inv s1 (bs[h := [p]]) \<and>
        p \<in> set (concat (bs[h := [p]])) \<and> key_of (Mem s1) p = k \<and>
        HashTableSize s1 = HashTableSize s \<and> MaxListLength s1 = MaxListLength s \<and>
        room s \<le> room s1 + 31 \<and>
        LookupPointer k s =
          (if resize_needed s1
           then (case IncreaseHashTableSize s1 of
                   None \<Rightarrow> None
                 | Some (Inl e) \<Rightarrow> Some (Inl e)
                 | Some (Inr s2) \<Rightarrow> find_again k s2)
           else Some (Inr (p + 8, s1)))"
proof -
  have miss: "\<forall>a \<in> set (concat bs). key_of (Mem s) a \<noteq> k"
  proof
    fix a assume a: "a \<in> set (concat bs)"
    show "key_of (Mem s) a \<noteq> k"
    proof
      assume "key_of (Mem s) a = k"
      with inv_in_bucket [OF inv a] h emp show False by simp
    qed
  qed
  have mx: "MaxListLength s = walk_max (bs ! h) 0 (MaxListLength s)" using emp by simp
  from LookupPointer_new [OF inv miss h mx] room
  obtain p s1 where 1: "find_or_add k s = Some (Inr (True, p, s1))"
      "table_inv s1 (bs[h := bs ! h @ [p]])" "key_of (Mem s1) p = k"
      "HashTableSize s1 = HashTableSize s" "MaxListLength s1 = MaxListLength s"
      "room s \<le> room s1 + 31"
      "LookupPointer k s =
          (if resize_needed s1
           then (case IncreaseHashTableSize s1 of
                   None \<Rightarrow> None
                 | Some (Inl e) \<Rightarrow> Some (Inl e)
                 | Some (Inr s2) \<Rightarrow> find_again k s2)
           else Some (Inr (p + 8, s1)))"
    by auto
  have hl: "h < length bs" using inv_bucket [OF inv] h by simp
  have "set (concat (bs[h := bs ! h @ [p]])) = insert p (set (concat bs))"
    using hl by (rule concat_update_snoc)
  then have "p \<in> set (concat (bs[h := [p]]))" using emp by simp
  with 1 emp show ?thesis by (intro exI [of _ p] exI [of _ s1]) simp
qed

lemma resize_needed_singletons:
  assumes inv: "table_inv s bs" and sz: "HashTableSize s = 8"
    and one: "\<forall>b \<in> set bs. length b \<le> 1" and ne: "concat bs \<noteq> []"
    and mx: "MaxListLength s = 0"
  shows "resize_needed s \<longleftrightarrow> 7 \<le> used_slots bs"
proof -
  define U where "U = used_slots bs"
  have len: "length bs = 8" using table_invD(3) [OF inv] sz by simp
  have U8: "U \<le> 8" using used_slots_le [of bs] len by (simp add: U_def)
  have U0: "0 < U" using used_slots_pos [OF ne] by (simp add: U_def)
  have t: "NumTotalRecords s = of_nat U" and u: "NumUsedSlots s = of_nat U"
    using table_invD(11,12) [OF inv] length_concat_singletons [OF one] by (simp_all add: U_def)
  have un: "unat (of_nat U :: 32 word) = U" using U8 by (simp add: unat_of_nat)
  have nz: "(of_nat U :: 32 word) \<noteq> 0" using un U0 by (auto simp flip: unat_gt_0)
  have "resize_test 8 (of_nat U) (of_nat U) 0 \<longleftrightarrow> resize_condition 8 (of_nat U) (of_nat U) 0"
    using U8 nz by (intro resize_test_exact) (simp_all add: un)
  also have "\<dots> \<longleftrightarrow> 7 \<le> U"
  proof -
    have "real U / real U = 1" using U0 by simp
    moreover have "32 / 5 < real U \<longleftrightarrow> 7 \<le> U" by linarith
    ultimately show ?thesis by (simp add: resize_condition_def un)
  qed
  finally show ?thesis by (simp add: resize_needed_def sz t u mx U_def)
qed

lemma singleton_members: "length xs \<le> 1 \<Longrightarrow> a \<in> set xs \<Longrightarrow> b \<in> set xs \<Longrightarrow> a = b"
  by (cases xs) auto

lemma update_singletons:
  assumes "\<forall>b \<in> set bs. length b \<le> 1"
  shows "\<forall>b \<in> set (bs[h := [p]]). length b \<le> 1"
proof
  fix b assume "b \<in> set (bs[h := [p]])"
  then have "b \<in> insert [p] (set bs)" using set_update_subset_insert [of bs h "[p]"] by blast
  with assms show "length b \<le> 1" by auto
qed

lemma no_collision_run:
  assumes inv: "table_inv s bs" and sz: "HashTableSize s = 8" and mx: "MaxListLength s = 0"
    and one: "\<forall>b \<in> set bs. length b \<le> 1"
    and emp: "\<forall>k \<in> set ks. bs ! bucket_of k 8 = []"
    and dis: "distinct (map (\<lambda>k. bucket_of k 8) ks)"
    and cnt: "used_slots bs + length ks \<le> 6" and room: "31 * length ks \<le> room s"
  shows "\<exists>refs s' bs'. lookups ks s = Some (Inr (refs, s')) \<and> table_inv s' bs' \<and>
      HashTableSize s' = 8 \<and> MaxListLength s' = 0 \<and> (\<forall>b \<in> set bs'. length b \<le> 1) \<and>
      used_slots bs' = used_slots bs + length ks \<and> room s \<le> room s' + 31 * length ks \<and>
      (\<forall>j. bs ! j = [] \<longrightarrow> j \<notin> (\<lambda>k. bucket_of k 8) ` set ks \<longrightarrow> bs' ! j = [])"
  using assms
proof (induction ks arbitrary: s bs)
  case Nil
  then show ?case by (intro exI [of _ "[]"] exI [of _ s] exI [of _ bs]) simp
next
  case (Cons k ks)
  note inv = Cons.prems(1) and sz = Cons.prems(2) and mx = Cons.prems(3)
    and one = Cons.prems(4)
  define h where "h = bucket_of k 8"
  have h: "h = bucket_of k (HashTableSize s)" by (simp add: h_def sz)
  have emp: "bs ! h = []" using Cons.prems(5) by (simp add: h_def)
  have r31: "31 \<le> room s" using Cons.prems(8) by simp
  from insert_empty_bucket [OF inv h emp r31]
  obtain p s1 where 1: "table_inv s1 (bs[h := [p]])" "p \<in> set (concat (bs[h := [p]]))"
      "HashTableSize s1 = HashTableSize s" "MaxListLength s1 = MaxListLength s"
      "room s \<le> room s1 + 31"
      "LookupPointer k s =
          (if resize_needed s1
           then (case IncreaseHashTableSize s1 of
                   None \<Rightarrow> None
                 | Some (Inl e) \<Rightarrow> Some (Inl e)
                 | Some (Inr s2) \<Rightarrow> find_again k s2)
           else Some (Inr (p + 8, s1)))"
    by blast
  let ?bs1 = "bs[h := [p]]"
  have hl: "h < length bs" using inv_bucket [OF inv] h by simp
  have one1: "\<forall>b \<in> set ?bs1. length b \<le> 1" using one by (rule update_singletons)
  have us1: "used_slots ?bs1 = Suc (used_slots bs)"
    using used_slots_update_snoc [OF hl, of p] emp by simp
  have ne1: "concat ?bs1 \<noteq> []" using 1(2) by (rule in_set_nonempty)
  have sz1: "HashTableSize s1 = 8" and mx1: "MaxListLength s1 = 0" using 1(3,4) sz mx by simp_all
  have "\<not> resize_needed s1"
    using resize_needed_singletons [OF 1(1) sz1 one1 ne1 mx1] us1 Cons.prems(7) by simp
  with 1(6) have L: "LookupPointer k s = Some (Inr (p + 8, s1))" by simp
  have emp1: "\<forall>k' \<in> set ks. ?bs1 ! bucket_of k' 8 = []"
  proof
    fix k' assume k': "k' \<in> set ks"
    then have "bucket_of k' 8 \<in> (\<lambda>k. bucket_of k 8) ` set ks" by (rule imageI)
    with Cons.prems(6) have "bucket_of k' 8 \<noteq> h" by (auto simp: h_def)
    with Cons.prems(5) k' show "?bs1 ! bucket_of k' 8 = []" by simp
  qed
  have dis1: "distinct (map (\<lambda>k. bucket_of k 8) ks)" using Cons.prems(6) by simp
  have cnt1: "used_slots ?bs1 + length ks \<le> 6" using us1 Cons.prems(7) by simp
  have room1: "31 * length ks \<le> room s1" using Cons.prems(8) 1(5) by simp
  from Cons.IH [OF 1(1) sz1 mx1 one1 emp1 dis1 cnt1 room1]
  obtain refs s' bs' where 2: "lookups ks s1 = Some (Inr (refs, s'))" "table_inv s' bs'"
      "HashTableSize s' = 8" "MaxListLength s' = 0" "\<forall>b \<in> set bs'. length b \<le> 1"
      "used_slots bs' = used_slots ?bs1 + length ks" "room s1 \<le> room s' + 31 * length ks"
      "\<forall>j. ?bs1 ! j = [] \<longrightarrow> j \<notin> (\<lambda>k. bucket_of k 8) ` set ks \<longrightarrow> bs' ! j = []"
    by blast
  have A: "lookups (k # ks) s = Some (Inr ((p + 8) # refs, s'))" using L 2(1) by simp
  have B: "used_slots bs' = used_slots bs + length (k # ks)" using 2(6) us1 by simp
  have C: "room s \<le> room s' + 31 * length (k # ks)" using 2(7) 1(5) by simp
  have D: "\<forall>j. bs ! j = [] \<longrightarrow> j \<notin> (\<lambda>k. bucket_of k 8) ` set (k # ks) \<longrightarrow> bs' ! j = []"
  proof (intro allI impI)
    fix j assume j: "bs ! j = []" "j \<notin> (\<lambda>k. bucket_of k 8) ` set (k # ks)"
    then have "j \<noteq> h" "j \<notin> (\<lambda>k. bucket_of k 8) ` set ks" by (auto simp: h_def)
    with j(1) 2(8) show "bs' ! j = []" by simp
  qed
  from A 2(2-5) B C D show ?case by blast
qed

text \<open>
  Claim C4, as amended. A table is built with 8 buckets in storage whose cursor fields are
  clear, by an allocator with 423 free bytes of zero-filled memory, and seven keys that
  select seven different buckets are looked up. The first six lookups leave the length at
  8 and six buckets in use: none of them triggers a resize. The seventh triggers one:
  the length is 16 afterwards, and seven buckets are in use.
\<close>

theorem seven_keys_one_resize:
  assumes cur: "OldHashTable st = 0" and zero: "\<forall>x \<ge> arena_next al. Mem st x = 0"
    and pos: "0 < arena_next al" and room: "arena_next al + 423 \<le> arena_end al"
    and top: "arena_end al < 2 ^ 64"
    and len: "length ks = 7" and dis: "distinct (map (\<lambda>k. bucket_of k 8) ks)"
  shows "\<exists>refs s6 r s7.
      lookups (take 6 ks) (CHash_ctor st (Some al) 8) = Some (Inr (refs, s6)) \<and>
      HashTableSize s6 = 8 \<and> NumUsedSlots s6 = 6 \<and>
      LookupPointer (ks ! 6) s6 = Some (Inr (r, s7)) \<and>
      HashTableSize s7 = 16 \<and> NumUsedSlots s7 = 7"
proof -
  define s0 where "s0 = CHash_ctor st (Some al) 8"
  define f where "f = (\<lambda>k. bucket_of k 8)"
  define k7 where "k7 = ks ! 6"
  have room0: "arena_next al + 8 * nat 8 + 7 + 352 \<le> arena_end al" using room by simp
  note c = CHash_ctor_room [OF pos top zero cur _ _ room0, folded s0_def]
  have inv0: "table_inv s0 (replicate 8 [])" using c(1) by simp
  have r0: "352 \<le> room s0" and sz0: "HashTableSize s0 = 8" and mx0: "MaxListLength s0 = 0"
    using c(2,3,4) by simp_all
  have "take (Suc 6) ks = take 6 ks @ [ks ! 6]" using len by (intro take_Suc_conv_app_nth) simp
  then have t7: "take 6 ks @ [k7] = ks" using len by (simp add: k7_def)
  have "distinct (map f (take 6 ks @ [k7]))" using dis by (simp only: t7 f_def)
  then have "distinct (map f (take 6 ks) @ [f k7])" by simp
  then have d6: "distinct (map f (take 6 ks))" and new7: "f k7 \<notin> f ` set (take 6 ks)" by auto
  have b8: "bucket_of k 8 < 8" for k using bucket_of_less [of 8 k] by simp
  have emp0: "\<forall>k \<in> set (take 6 ks). replicate 8 [] ! bucket_of k 8 = ([] :: ptr list)"
    using b8 by simp
  have one0: "\<forall>b \<in> set (replicate 8 ([] :: ptr list)). length b \<le> 1" by simp
  have cnt0: "used_slots (replicate 8 ([] :: ptr list)) + length (take 6 ks) \<le> 6"
    using len by simp
  have room6: "31 * length (take 6 ks) \<le> room s0" using r0 len by simp
  from no_collision_run [OF inv0 sz0 mx0 one0 emp0 d6 [unfolded f_def] cnt0 room6]
  obtain refs s6 bs6 where 6: "lookups (take 6 ks) s0 = Some (Inr (refs, s6))"
      "table_inv s6 bs6" "HashTableSize s6 = 8" "MaxListLength s6 = 0"
      "\<forall>b \<in> set bs6. length b \<le> 1"
      "used_slots bs6 = used_slots (replicate 8 ([] :: ptr list)) + length (take 6 ks)"
      "room s0 \<le> room s6 + 31 * length (take 6 ks)"
      "\<forall>j. replicate 8 ([] :: ptr list) ! j = [] \<longrightarrow>
           j \<notin> (\<lambda>k. bucket_of k 8) ` set (take 6 ks) \<longrightarrow> bs6 ! j = []"
    by blast
  have u6: "used_slots bs6 = 6" using 6(6) len by simp
  have U6: "NumUsedSlots s6 = 6" using table_invD(12) [OF 6(2)] u6 by simp
  have r6: "166 \<le> room s6" using 6(7) r0 len by simp
  define h where "h = bucket_of k7 8"
  have h: "h = bucket_of k7 (HashTableSize s6)" by (simp add: h_def 6(3))
  have emp6: "bs6 ! h = []" using 6(8) new7 b8 [of k7] by (simp add: h_def f_def)
  have r31: "31 \<le> room s6" using r6 by simp
  from insert_empty_bucket [OF 6(2) h emp6 r31]
  obtain p s1 where 1: "table_inv s1 (bs6[h := [p]])" "p \<in> set (concat (bs6[h := [p]]))"
      "key_of (Mem s1) p = k7"
      "HashTableSize s1 = HashTableSize s6" "MaxListLength s1 = MaxListLength s6"
      "room s6 \<le> room s1 + 31"
      "LookupPointer k7 s6 =
          (if resize_needed s1
           then (case IncreaseHashTableSize s1 of
                   None \<Rightarrow> None
                 | Some (Inl e) \<Rightarrow> Some (Inl e)
                 | Some (Inr s2) \<Rightarrow> find_again k7 s2)
           else Some (Inr (p + 8, s1)))"
    by blast
  let ?bs7 = "bs6[h := [p]]"
  have hl: "h < length bs6" using inv_bucket [OF 6(2)] h by simp
  have len7: "length ?bs7 = 8" using table_invD(3) [OF 6(2)] 6(3) by simp
  have one7: "\<forall>b \<in> set ?bs7. length b \<le> 1" using 6(5) by (rule update_singletons)
  have us7: "used_slots ?bs7 = 7" using used_slots_update_snoc [OF hl, of p] emp6 u6 by simp
  have ne7: "concat ?bs7 \<noteq> []" using 1(2) by (rule in_set_nonempty)
  have sz1: "HashTableSize s1 = 8" and mx1: "MaxListLength s1 = 0" using 1(4,5) 6(3,4) by simp_all
  have rn: "resize_needed s1"
    using resize_needed_singletons [OF 1(1) sz1 one7 ne7 mx1] us7 by simp
  have r1: "\<not> room s1 < 16 * length ?bs7 + 7" using r6 1(6) len7 by simp
  from Increase_cases [OF 1(1)] sz1 r1
  obtain s7 where 7: "IncreaseHashTableSize s1 = Some (Inr s7)"
      "table_inv s7 (regrouped s1 ?bs7)" "HashTableSize s7 = HashTableSize s1 * 2"
      "\<forall>a \<in> set (concat ?bs7). key_of (Mem s7) a = key_of (Mem s1) a"
    by auto
  have no1: "HashTableSize s1 * 2 < 2 ^ 31" using sz1 by simp
  have pin: "p \<in> set (concat (regrouped s1 ?bs7))" using set_regrouped [OF 1(1) no1] 1(2) by simp
  have kp: "key_of (Mem s7) p = k7" using 7(4) 1(2,3) by simp
  have "find_again k7 s7 = Some (Inr (p + 8, s7))" using 7(2) pin kp by (rule find_again_inv)
  with 1(7) rn 7(1) have L: "LookupPointer k7 s6 = Some (Inr (p + 8, s7))" by simp
  define g where "g = (\<lambda>a. bucket_of (key_of (Mem s1) a) (HashTableSize s1 * 2))"
  have inj: "inj_on g (set (concat ?bs7))"
  proof (rule inj_onI)
    fix a b assume a: "a \<in> set (concat ?bs7)" and b: "b \<in> set (concat ?bs7)" and e: "g a = g b"
    have "bucket_of (key_of (Mem s1) a) 8 = bucket_of (key_of (Mem s1) b) 8"
      using e bucket_of_halve [of 8] by (simp add: g_def sz1)
    with inv_in_bucket [OF 1(1) a] inv_in_bucket [OF 1(1) b]
    have "a \<in> set (?bs7 ! bucket_of (key_of (Mem s1) a) 8)"
      "b \<in> set (?bs7 ! bucket_of (key_of (Mem s1) a) 8)" by (simp_all add: sz1)
    moreover have "length (?bs7 ! bucket_of (key_of (Mem s1) a) 8) \<le> 1"
      using one7 b8 [of "key_of (Mem s1) a"] len7 by (intro one7 [rule_format] nth_mem) simp
    ultimately show "a = b" by (intro singleton_members)
  qed
  have g16: "\<forall>a \<in> set (concat ?bs7). g a < length (replicate (2 * length ?bs7) ([] :: ptr list))"
    using bucket_of_less [of 16] len7 by (simp add: g_def sz1)
  have ge: "\<forall>a \<in> set (concat ?bs7). replicate (2 * length ?bs7) ([] :: ptr list) ! g a = []"
    using g16 by simp
  have "used_slots (regrouped s1 ?bs7) =
      used_slots (replicate (2 * length ?bs7) ([] :: ptr list)) + length (concat ?bs7)"
    unfolding regrouped_def g_def [symmetric]
    using table_invD(6) [OF 1(1)] inj g16 ge by (rule used_slots_rehash_inj)
  then have "used_slots (regrouped s1 ?bs7) = 7"
    using length_concat_singletons [OF one7] us7 by simp
  with table_invD(12) [OF 7(2)] have U7: "NumUsedSlots s7 = 7" by simp
  have S7: "HashTableSize s7 = 16" using 7(3) sz1 by simp
  from 6(1) 6(3) U6 L S7 U7 show ?thesis
    unfolding s0_def k7_def by blast
qed

lemma hash_values_seven:
  "HashPointer 1048600 = 3194471760"
  "HashPointer 1048624 = 1814545963"
  "HashPointer 1048656 = 4187784658"
  by (simp_all add: HashPointer_def Let_def cong: let_weak_cong)

lemma fresh8_eval: "fresh8 = \<lparr>HashAllocator = Some \<lparr>arena_next = 4160, arena_end = 1048576\<rparr>,
        HashTableSize = 8, HashTable = 4096, OldHashTable = 0,
        OldHashTableFreeRemaining = 0, NumUsedSlots = 0, MaxListLength = 0,
        NumTotalRecords = 0, Mem = \<lambda>_. 0\<rparr>"
  by (simp add: fresh8_def CHash_ctor_def storage0_def arena0_def AllocateBytes_def Let_def
      split del: if_split cong: let_weak_cong)

lemma seven_buckets:
  "bucket_of 1048576 8 = 4" "bucket_of 1048584 8 = 5" "bucket_of 1048600 8 = 0"
  "bucket_of 1048624 8 = 3" "bucket_of 1048656 8 = 2" "bucket_of 1048664 8 = 7"
  "bucket_of 1048688 8 = 1"
  by (simp_all add: bucket_of_def hash_values hash_values_seven)

theorem seven_keys_one_resize_witness:
  "OldHashTable storage0 = 0 \<and> Mem storage0 = (\<lambda>_. 0) \<and>
   0 < arena_next arena0 \<and> arena_next arena0 + 423 \<le> arena_end arena0 \<and>
   arena_end arena0 < 2 ^ 64 \<and> length seven_keys = 7 \<and>
   distinct (map (\<lambda>k. bucket_of k 8) seven_keys) \<and>
   (\<exists>refs s6 r s7.
      lookups (take 6 seven_keys) (CHash_ctor storage0 (Some arena0) 8) = Some (Inr (refs, s6)) \<and>
      HashTableSize s6 = 8 \<and> NumUsedSlots s6 = 6 \<and>
      LookupPointer (seven_keys ! 6) s6 = Some (Inr (r, s7)) \<and>
      HashTableSize s7 = 16 \<and> NumUsedSlots s7 = 7)"
proof -
  have 1: "OldHashTable storage0 = 0" "\<forall>x \<ge> arena_next arena0. Mem storage0 x = 0"
    "0 < arena_next arena0" "arena_next arena0 + 423 \<le> arena_end arena0"
    "arena_end arena0 < 2 ^ 64"
    by (simp_all add: storage0_def arena0_def)
  have 2: "length seven_keys = 7" "distinct (map (\<lambda>k. bucket_of k 8) seven_keys)"
    by (simp_all add: seven_keys_def seven_buckets)
  have 3: "Mem storage0 = (\<lambda>_. 0)" by (simp add: storage0_def)
  from seven_keys_one_resize [OF 1 2] 1 2 3 show ?thesis by blast
qed

text \<open>
  Claim C4 as stated fails: the seventh of seven keys without collisions triggers a
  resize, since 7 used slots are more than 80% of 8. The length is 16 afterwards, not 8,
  and the longest-chain statistic is 0.
\<close>

theorem seven_keys_resize_counterexample:
  "bucket_of 1048576 8 = 4 \<and> bucket_of 1048584 8 = 5 \<and> bucket_of 1048600 8 = 0 \<and>
   bucket_of 1048624 8 = 3 \<and> bucket_of 1048656 8 = 2 \<and> bucket_of 1048664 8 = 7 \<and>
   bucket_of 1048688 8 = 1 \<and>
   lookups [1048576, 1048584, 1048600, 1048624, 1048656, 1048664, 1048688] fresh8 =
     Some (Inr ([4168, 4192, 4216, 4240, 4264, 4288, 4312], fresh8_seven)) \<and>
   HashTableSize fresh8 = 8 \<and> HashTableSize fresh8_seven = 16 \<and>
   NumUsedSlots fresh8_seven = 7 \<and> MaxListLength fresh8_seven = 0"
proof -
  have "lookups [1048576, 1048584, 1048600, 1048624, 1048656, 1048664, 1048688] fresh8 =
     Some (Inr ([4168, 4192, 4216, 4240, 4264, 4288, 4312], fresh8_seven))"
    by (simp add: fresh8_eval fresh8_seven_def run_simps hash_values hash_values_seven
        split del: if_split cong: let_weak_cong) (simp add: fun_eq_iff)
  then show ?thesis by (simp add: seven_buckets fresh8_eval fresh8_seven_def)
qed

section \<open>Successive insertions\<close>

lemma store_value_fields [simp]:
  "HashTableSize (store_value r v s) = HashTableSize s"
  "HashTable (store_value r v s) = HashTable s"
  "NumUsedSlots (store_value r v s) = NumUsedSlots s"
  "NumTotalRecords (store_value r v s) = NumTotalRecords s"
  "MaxListLength (store_value r v s) = MaxListLength s"
  "room (store_value r v s) = room s"
  by (simp_all add: store_value_def room_def)



section \<open>Keys that select the same bucket\<close>















end
